theory Spec2Isabelle
  imports Main
begin

section \<open>The slab manager of \<^verbatim>\<open>SlabManager.hpp\<close>\<close>

text \<open>
  The class \<^verbatim>\<open>gen::SlabManager\<close> keeps a \<^verbatim>\<open>std::vector<Elem>\<close> and threads two
  doubly-linked lists through it by index: the empty slots and the filled slots.
  Every member function is embedded as a function on an explicit state record.

  \<^item> \<^verbatim>\<open>size_t\<close> values are natural numbers below \<open>2 ^ 64\<close>. The two counters and the
    subtraction of the downsize threshold are written with their wrap-around
    (\<open>size_add\<close>, \<open>size_sub\<close>). Loop counters and indices into the vector stay below
    the length of the vector, which is at most \<open>vec_max_size\<close>, and are plain numbers.
  \<^item> A mutating member function returns its outcome together with the state of the
    object at the moment the function is left: \<open>Inr\<close> the returned value, \<open>Inl\<close> the
    exception.
  \<^item> The vector cannot hold more than \<open>vec_max_size\<close> elements: growing beyond it throws
    \<^verbatim>\<open>std::length_error\<close> and leaves the vector as it was. Below that limit every
    allocation is taken to succeed.
  \<^item> \<^verbatim>\<open>elem_vec[i]\<close> is unchecked in C++. Where an index that comes from the state is
    used, the model first tests it against the length and leaves the function with
    \<open>Undefined\<close> when it is out of range; \<open>no_undefined\<close> below shows that this never
    happens in a state reached through the public interface.
  \<^item> The capacity of the vector depends on the growth policy of the standard library
    and is not part of the state: \<^verbatim>\<open>capacity\<close> is left out, \<^verbatim>\<open>reserve\<close> and
    \<^verbatim>\<open>shrink_to_fit\<close> keep the state.
\<close>

subsection \<open>Machine parameters\<close>

definition size_t_mod :: nat where
  "size_t_mod = 2 ^ 64"

definition NULL_INDEX :: nat where
  "NULL_INDEX = size_t_mod - 1"

text \<open>
  \<^verbatim>\<open>std::vector<Elem>::max_size()\<close>, here the value of an LP64 platform with a 24-byte
  \<^verbatim>\<open>Elem\<close>. The proofs use only that it lies below \<open>NULL_INDEX\<close>.
\<close>

definition vec_max_size :: nat where
  "vec_max_size = (2 ^ 63 - 1) div 24"

definition size_add :: "nat \<Rightarrow> nat \<Rightarrow> nat" where
  "size_add a b = (a + b) mod size_t_mod"

definition size_sub :: "nat \<Rightarrow> nat \<Rightarrow> nat" where
  "size_sub a b = (a + size_t_mod - b) mod size_t_mod"

subsection \<open>Data\<close>

record elem =
  is_empty :: bool
  prev :: nat
  "next" :: nat

text \<open>The default constructor \<^verbatim>\<open>Elem()\<close>.\<close>

definition Elem :: elem where
  "Elem = \<lparr>is_empty = True, prev = NULL_INDEX, next = NULL_INDEX\<rparr>"

record slab_manager =
  empty_head :: nat
  filled_head :: nat
  empty_cnt :: nat
  filled_cnt :: nat
  elem_vec :: "elem list"

datatype error = OutOfRange | LogicError | LengthError | Undefined

text \<open>The assignments \<^verbatim>\<open>elem_vec[i].f = v\<close>.\<close>

definition set_is_empty :: "nat \<Rightarrow> bool \<Rightarrow> slab_manager \<Rightarrow> slab_manager" where
  "set_is_empty i v s = s\<lparr>elem_vec := (elem_vec s)[i := (elem_vec s ! i)\<lparr>is_empty := v\<rparr>]\<rparr>"

definition set_prev :: "nat \<Rightarrow> nat \<Rightarrow> slab_manager \<Rightarrow> slab_manager" where
  "set_prev i v s = s\<lparr>elem_vec := (elem_vec s)[i := (elem_vec s ! i)\<lparr>prev := v\<rparr>]\<rparr>"

definition set_next :: "nat \<Rightarrow> nat \<Rightarrow> slab_manager \<Rightarrow> slab_manager" where
  "set_next i v s = s\<lparr>elem_vec := (elem_vec s)[i := (elem_vec s ! i)\<lparr>next := v\<rparr>]\<rparr>"

text \<open>\<^verbatim>\<open>elem_vec.resize(n)\<close>: truncate, or append default-constructed elements.\<close>

definition vec_resize :: "nat \<Rightarrow> slab_manager \<Rightarrow> slab_manager" where
  "vec_resize n s =
     s\<lparr>elem_vec := take n (elem_vec s) @ replicate (n - length (elem_vec s)) Elem\<rparr>"

definition in_range :: "slab_manager \<Rightarrow> nat \<Rightarrow> bool" where
  "in_range s i = (i < length (elem_vec s))"

subsection \<open>Construction\<close>

text \<open>The loop \<^verbatim>\<open>for (size_t i = 1; i < n - 1; i += 1)\<close> of \<^verbatim>\<open>initialize\<close>.\<close>

function init_loop :: "nat \<Rightarrow> nat \<Rightarrow> slab_manager \<Rightarrow> slab_manager" where
  "init_loop i n s =
     (if i < n - 1
      then init_loop (i + 1) n
             (set_next i (i + 1) (set_prev i (i - 1) (set_is_empty i True s)))
      else s)"
  by pat_completeness auto
termination
  by (relation "measure (\<lambda>(i, n, s). n - 1 - i)") auto

text \<open>
  \<^verbatim>\<open>initialize(n)\<close> is private; each of its three callers passes the length of the
  vector, which is at least 1 there.
\<close>

definition initialize :: "nat \<Rightarrow> slab_manager \<Rightarrow> slab_manager" where
  "initialize n s =
     (let s1 = s\<lparr>empty_head := 0, filled_head := NULL_INDEX\<rparr>;
          s2 = (if n > 1 then
                  (let a1 = set_is_empty 0 True s1;
                       a2 = set_prev 0 NULL_INDEX a1;
                       a3 = set_next 0 1 a2;
                       a4 = init_loop 1 n a3;
                       a5 = set_is_empty (n - 1) True a4;
                       a6 = set_prev (n - 1) (n - 2) a5
                   in set_next (n - 1) NULL_INDEX a6)
                else
                  (let b1 = set_is_empty 0 True s1;
                       b2 = set_prev 0 NULL_INDEX b1;
                       b3 = set_next 0 NULL_INDEX b2
                   in b3\<lparr>empty_head := 0, filled_head := NULL_INDEX\<rparr>))
      in s2\<lparr>empty_cnt := n, filled_cnt := 0\<rparr>)"

text \<open>
  \<^verbatim>\<open>SlabManager(size_t n)\<close>. The member initialiser builds the vector of
  \<open>max n 1\<close> default elements; the four scalar members have no initialiser and are
  all assigned by \<open>initialize\<close>, so their value before it (0 here) is never read.
\<close>

definition SlabManager :: "nat \<Rightarrow> error + slab_manager" where
  "SlabManager n =
     (let m = (if n > 0 then n else 1) in
      if m > vec_max_size then Inl LengthError
      else Inr (initialize m
             \<lparr>empty_head = 0, filled_head = 0, empty_cnt = 0, filled_cnt = 0,
              elem_vec = replicate m Elem\<rparr>))"

text \<open>\<^verbatim>\<open>SlabManager()\<close>: one slot.\<close>

definition SlabManager_default :: "slab_manager" where
  "SlabManager_default =
     initialize 1
       \<lparr>empty_head = 0, filled_head = 0, empty_cnt = 0, filled_cnt = 0,
        elem_vec = replicate 1 Elem\<rparr>"

subsection \<open>Accessors\<close>

definition size_slab :: "slab_manager \<Rightarrow> nat" where
  "size_slab s = length (elem_vec s)"

definition empty_count :: "slab_manager \<Rightarrow> nat" where
  "empty_count s = empty_cnt s"

definition filled_count :: "slab_manager \<Rightarrow> nat" where
  "filled_count s = filled_cnt s"

definition is_slot_empty :: "slab_manager \<Rightarrow> nat \<Rightarrow> error + bool" where
  "is_slot_empty s ind =
     (if ind \<ge> length (elem_vec s) then Inl OutOfRange
      else Inr (is_empty (elem_vec s ! ind)))"

subsection \<open>acquire\<close>

definition acquire :: "slab_manager \<Rightarrow> (error + nat) \<times> slab_manager" where
  "acquire s =
     (if empty_head s \<noteq> NULL_INDEX then
        (let rv = empty_head s in
         if \<not> in_range s rv then (Inl Undefined, s) else
         let s1 = s\<lparr>empty_head := next (elem_vec s ! empty_head s)\<rparr> in
         if empty_head s1 \<noteq> NULL_INDEX \<and> \<not> in_range s1 (empty_head s1)
         then (Inl Undefined, s1) else
         let s2 = (if empty_head s1 \<noteq> NULL_INDEX
                   then set_prev (empty_head s1) NULL_INDEX s1 else s1) in
         if filled_head s2 \<noteq> NULL_INDEX \<and> \<not> in_range s2 (filled_head s2)
         then (Inl Undefined, s2) else
         let s3 = (if filled_head s2 \<noteq> NULL_INDEX
                   then set_prev (filled_head s2) rv s2 else s2);
             s4 = set_next rv (filled_head s3) s3;
             s5 = set_prev rv NULL_INDEX s4;
             s6 = s5\<lparr>filled_head := rv\<rparr>;
             s7 = set_is_empty rv False s6;
             s8 = s7\<lparr>empty_cnt := size_sub (empty_cnt s7) 1\<rparr>;
             s9 = s8\<lparr>filled_cnt := size_add (filled_cnt s8) 1\<rparr>
         in (Inr rv, s9))
      else
        (let rv = length (elem_vec s) in
         if \<not> rv < vec_max_size then (Inl LengthError, s) else
         let t1 = s\<lparr>elem_vec := elem_vec s @ [Elem]\<rparr> in
         if filled_head t1 \<noteq> NULL_INDEX \<and> \<not> in_range t1 (filled_head t1)
         then (Inl Undefined, t1) else
         let t2 = (if filled_head t1 \<noteq> NULL_INDEX
                   then set_prev (filled_head t1) rv t1 else t1);
             t3 = set_next rv (filled_head t2) t2;
             t4 = set_prev rv NULL_INDEX t3;
             t5 = t4\<lparr>filled_head := rv\<rparr>;
             t6 = set_is_empty rv False t5;
             t7 = t6\<lparr>filled_cnt := size_add (filled_cnt t6) 1\<rparr>
         in (Inr rv, t7)))"

subsection \<open>give\_back\<close>

definition give_back :: "slab_manager \<Rightarrow> nat \<Rightarrow> (error + unit) \<times> slab_manager" where
  "give_back s ind =
     (case is_slot_empty s ind of
        Inl e \<Rightarrow> (Inl e, s)
      | Inr True \<Rightarrow> (Inl LogicError, s)
      | Inr False \<Rightarrow>
         (let prv = prev (elem_vec s ! ind);
              nxt = next (elem_vec s ! ind) in
          if nxt \<noteq> NULL_INDEX \<and> \<not> in_range s nxt then (Inl Undefined, s) else
          let s1 = (if nxt \<noteq> NULL_INDEX then set_prev nxt prv s else s) in
          if prv \<noteq> NULL_INDEX \<and> \<not> in_range s1 prv then (Inl Undefined, s1) else
          let s2 = (if prv \<noteq> NULL_INDEX then set_next prv nxt s1
                    else s1\<lparr>filled_head := nxt\<rparr>) in
          if empty_head s2 \<noteq> NULL_INDEX \<and> \<not> in_range s2 (empty_head s2)
          then (Inl Undefined, s2) else
          let s3 = (if empty_head s2 \<noteq> NULL_INDEX
                    then set_prev (empty_head s2) ind s2 else s2);
              s4 = set_next ind (empty_head s3) s3;
              s5 = set_prev ind NULL_INDEX s4;
              s6 = s5\<lparr>empty_head := ind\<rparr>;
              s7 = set_is_empty ind True s6;
              s8 = s7\<lparr>filled_cnt := size_sub (filled_cnt s7) 1\<rparr>;
              s9 = s8\<lparr>empty_cnt := size_add (empty_cnt s8) 1\<rparr>
          in (Inr (), s9)))"

subsection \<open>clear\<close>

definition clear :: "slab_manager \<Rightarrow> (error + unit) \<times> slab_manager" where
  "clear s =
     (if length (elem_vec s) = 0 then (Inl Undefined, s)
      else (Inr (), initialize (length (elem_vec s)) s))"

subsection \<open>resize\<close>

text \<open>The upsize loop \<^verbatim>\<open>for (size_t i = ss; i < newsize; i += 1)\<close>.\<close>

definition upsize_step :: "nat \<Rightarrow> slab_manager \<Rightarrow> slab_manager" where
  "upsize_step i s =
     (let s1 = set_prev i NULL_INDEX s;
          s2 = set_next i (empty_head s1) s1;
          s3 = (if empty_head s2 \<noteq> NULL_INDEX then set_prev (empty_head s2) i s2 else s2)
      in s3\<lparr>empty_head := i\<rparr>)"

function upsize_loop :: "nat \<Rightarrow> nat \<Rightarrow> slab_manager \<Rightarrow> slab_manager" where
  "upsize_loop i newsize s =
     (if i < newsize then upsize_loop (i + 1) newsize (upsize_step i s) else s)"
  by pat_completeness auto
termination
  by (relation "measure (\<lambda>(i, newsize, s). newsize - i)") auto

text \<open>
  The backward scan \<^verbatim>\<open>for (size_t i = ss - 1; true; i -= 1)\<close> of the downsize branch,
  from \<open>i\<close> with \<open>cnt\<close> slots counted so far; it returns \<open>(pos, cnt)\<close>.
\<close>

fun scan_back :: "elem list \<Rightarrow> nat \<Rightarrow> nat \<Rightarrow> nat \<times> nat" where
  "scan_back ev 0 cnt =
     (if is_empty (ev ! 0) = False then (0, cnt) else (NULL_INDEX, cnt + 1))"
| "scan_back ev (Suc i) cnt =
     (if is_empty (ev ! Suc i) = False then (Suc i, cnt) else scan_back ev i (cnt + 1))"

text \<open>The body and the loop of \<^verbatim>\<open>// Relink empties\<close>.\<close>

definition relink_step :: "nat \<Rightarrow> slab_manager \<Rightarrow> slab_manager" where
  "relink_step i s =
     (if is_empty (elem_vec s ! i) = True then
        (let s1 = s\<lparr>empty_cnt := size_add (empty_cnt s) 1\<rparr> in
         if empty_head s1 = NULL_INDEX then
           (let a1 = set_prev i NULL_INDEX s1;
                a2 = set_next i NULL_INDEX a1
            in a2\<lparr>empty_head := i\<rparr>)
         else
           (let b1 = set_prev (empty_head s1) i s1;
                b2 = set_prev i NULL_INDEX b1;
                b3 = set_next i (empty_head b2) b2
            in b3\<lparr>empty_head := i\<rparr>))
      else s)"

fun relink_loop :: "nat \<Rightarrow> slab_manager \<Rightarrow> slab_manager" where
  "relink_loop 0 s = relink_step 0 s"
| "relink_loop (Suc i) s = relink_loop i (relink_step (Suc i) s)"

definition resize :: "slab_manager \<Rightarrow> nat \<Rightarrow> (error + unit) \<times> slab_manager" where
  "resize s newsize =
     (let ss = length (elem_vec s) in
      if ss = newsize then (Inr (), s)
      else if newsize > ss then
        (if newsize > vec_max_size then (Inl LengthError, s) else
         let u1 = vec_resize newsize s in
         if empty_head u1 \<noteq> NULL_INDEX \<and> \<not> in_range u1 (empty_head u1)
         then (Inl Undefined, u1) else
         let u2 = upsize_loop ss newsize u1
         in (Inr (), u2\<lparr>empty_cnt := size_add (empty_cnt u2) (newsize - ss)\<rparr>))
      else
        (let newsize1 = (if newsize > 0 then newsize else 1);
             (pos, cnt) = scan_back (elem_vec s) (ss - 1) 0 in
         if pos = NULL_INDEX then
           (let d1 = vec_resize newsize1 s
            in (Inr (), initialize (length (elem_vec d1)) d1))
         else if pos = ss - 1 then (Inr (), s)
         else if size_sub (empty_cnt s) cnt < 4 then (Inr (), s)
         else
           (let e1 = (if newsize1 > pos + 1 then vec_resize newsize1 s
                      else vec_resize (pos + 1) s);
                e2 = e1\<lparr>empty_head := NULL_INDEX\<rparr>;
                e3 = e2\<lparr>empty_cnt := 0\<rparr>
            in (Inr (), relink_loop (length (elem_vec e3) - 1) e3))))"

subsection \<open>reserve, resize\_to\_min, shrink\_to\_fit\<close>

definition reserve :: "slab_manager \<Rightarrow> nat \<Rightarrow> (error + unit) \<times> slab_manager" where
  "reserve s n = (if n > vec_max_size then (Inl LengthError, s) else (Inr (), s))"

definition resize_to_min :: "slab_manager \<Rightarrow> (error + unit) \<times> slab_manager" where
  "resize_to_min s = resize s 1"

definition shrink_to_fit :: "slab_manager \<Rightarrow> (error + unit) \<times> slab_manager" where
  "shrink_to_fit s = (Inr (), s)"

subsection \<open>States reached through the public interface\<close>

inductive reachable :: "slab_manager \<Rightarrow> bool" where
  r_default: "reachable SlabManager_default"
| r_construct: "SlabManager n = Inr s \<Longrightarrow> reachable s"
| r_acquire: "reachable s \<Longrightarrow> reachable (snd (acquire s))"
| r_give_back: "reachable s \<Longrightarrow> reachable (snd (give_back s ind))"
| r_clear: "reachable s \<Longrightarrow> reachable (snd (clear s))"
| r_resize: "reachable s \<Longrightarrow> reachable (snd (resize s newsize))"
| r_reserve: "reachable s \<Longrightarrow> reachable (snd (reserve s n))"
| r_resize_to_min: "reachable s \<Longrightarrow> reachable (snd (resize_to_min s))"
| r_shrink_to_fit: "reachable s \<Longrightarrow> reachable (snd (shrink_to_fit s))"

subsection \<open>The two lists as sequences of indices\<close>

text \<open>
  \<open>walk\<close> follows the \<open>next\<close> fields from a head as the traversals of the source do
  (\<^verbatim>\<open>for (auto i = head; i != NULL_INDEX; i = elem_vec[i].next)\<close>), for at most \<open>k\<close>
  steps and stopping at an index outside the vector.
\<close>

fun walk :: "elem list \<Rightarrow> nat \<Rightarrow> nat \<Rightarrow> nat list" where
  "walk ev 0 h = []"
| "walk ev (Suc k) h =
     (if h \<noteq> NULL_INDEX \<and> h < length ev then h # walk ev k (next (ev ! h)) else [])"

definition free_list :: "slab_manager \<Rightarrow> nat list" where
  "free_list s = walk (elem_vec s) (length (elem_vec s)) (empty_head s)"

definition used_list :: "slab_manager \<Rightarrow> nat list" where
  "used_list s = walk (elem_vec s) (length (elem_vec s)) (filled_head s)"

text \<open>
  \<open>dll ev p h is\<close>: starting at \<open>h\<close>, the \<open>next\<close> fields visit exactly the indices
  \<open>is\<close> and then reach \<open>NULL_INDEX\<close>; the \<open>prev\<close> field of the first is \<open>p\<close> and the
  \<open>prev\<close> field of every other one is its predecessor in \<open>is\<close>.
\<close>

fun dll :: "elem list \<Rightarrow> nat \<Rightarrow> nat \<Rightarrow> nat list \<Rightarrow> bool" where
  "dll ev p h [] = (h = NULL_INDEX)"
| "dll ev p h (i # is) =
     (h = i \<and> i \<noteq> NULL_INDEX \<and> i < length ev \<and> prev (ev ! i) = p \<and>
      dll ev i (next (ev ! i)) is)"

text \<open>
  The representation invariant, with the contents of the two lists named: the vector
  is not empty and within the limit of the vector type, the empty list holds exactly
  the slots flagged empty and the filled list exactly the others, each once, and the
  counters are the lengths of the lists.
\<close>

definition wf_lists :: "slab_manager \<Rightarrow> nat list \<Rightarrow> nat list \<Rightarrow> bool" where
  "wf_lists s fl ul =
     (1 \<le> length (elem_vec s) \<and> length (elem_vec s) \<le> vec_max_size \<and>
      dll (elem_vec s) NULL_INDEX (empty_head s) fl \<and>
      dll (elem_vec s) NULL_INDEX (filled_head s) ul \<and>
      distinct fl \<and> distinct ul \<and>
      set fl = {i. i < length (elem_vec s) \<and> is_empty (elem_vec s ! i)} \<and>
      set ul = {i. i < length (elem_vec s) \<and> \<not> is_empty (elem_vec s ! i)} \<and>
      empty_cnt s = length fl \<and> filled_cnt s = length ul)"

definition wf_slab :: "slab_manager \<Rightarrow> bool" where
  "wf_slab s = wf_lists s (free_list s) (used_list s)"

text \<open>The indices from \<open>k\<close> on whose slot is flagged empty, in ascending order.\<close>

definition empties_from :: "elem list \<Rightarrow> nat \<Rightarrow> nat list" where
  "empties_from ev k = filter (\<lambda>j. is_empty (ev ! j)) [k..<length ev]"

subsection \<open>Notions used in the statements\<close>

text \<open>\<open>n\<close> successive calls of \<^verbatim>\<open>acquire()\<close>; the outcomes in call order and the final state.\<close>

fun acquire_n :: "nat \<Rightarrow> slab_manager \<Rightarrow> (error + nat) list \<times> slab_manager" where
  "acquire_n 0 s = ([], s)"
| "acquire_n (Suc n) s =
     (let (r, s1) = acquire s;
          (rs, s2) = acquire_n n s1
      in (r # rs, s2))"

text \<open>The number of consecutive slots flagged empty at the end of the vector.\<close>

definition trailing_free :: "slab_manager \<Rightarrow> nat" where
  "trailing_free s = length (takeWhile is_empty (rev (elem_vec s)))"

text \<open>\<open>pos\<close> is the highest index of a filled slot.\<close>

definition last_filled :: "slab_manager \<Rightarrow> nat \<Rightarrow> bool" where
  "last_filled s pos =
     (pos < length (elem_vec s) \<and> is_empty (elem_vec s ! pos) = False \<and>
      list_all (\<lambda>j. is_empty (elem_vec s ! j)) [Suc pos..<length (elem_vec s)])"

text \<open>Whether some slot is filled.\<close>

definition some_filled :: "slab_manager \<Rightarrow> bool" where
  "some_filled s = list_ex (\<lambda>e. is_empty e = False) (elem_vec s)"

subsection \<open>Example states\<close>

text \<open>
  Six slots, all acquired (in the order 5, 4, 3, 2, 1, 0), then 0, 1, 2, 3 and 5 given
  back: slot 4 is the only filled one and one free slot follows it.
\<close>

definition ex_six :: slab_manager where
  "ex_six = snd (resize SlabManager_default 6)"

definition ex_full :: slab_manager where
  "ex_full = snd (acquire (snd (acquire (snd (acquire (snd (acquire (snd (acquire
               (snd (acquire ex_six)))))))))))"

definition ex_gap :: slab_manager where
  "ex_gap = snd (give_back (snd (give_back (snd (give_back (snd (give_back
               (snd (give_back ex_full 0)) 1)) 2)) 3)) 5)"

text \<open>Three slots, all filled, then grown to ten: seven trailing free slots.\<close>

definition ex_three :: slab_manager where
  "ex_three = snd (acquire (snd (acquire (snd (acquire SlabManager_default)))))"

definition ex_ten :: slab_manager where
  "ex_ten = snd (resize ex_three 10)"

text \<open>Three slots, none of them ever acquired.\<close>

definition ex_free :: slab_manager where
  "ex_free = snd (resize SlabManager_default 3)"

section \<open>Proofs\<close>

subsection \<open>Arithmetic and the field assignments\<close>

lemma vec_max_size_lt_NULL: "vec_max_size < NULL_INDEX"
  by (simp add: vec_max_size_def NULL_INDEX_def size_t_mod_def)

lemma NULL_INDEX_lt_mod: "NULL_INDEX < size_t_mod"
  by (simp add: NULL_INDEX_def size_t_mod_def)

lemma size_t_mod_pos: "0 < size_t_mod"
  by (simp add: size_t_mod_def)

lemma size_add_small: "a + b < size_t_mod \<Longrightarrow> size_add a b = a + b"
  by (simp add: size_add_def)

lemma size_sub_small: "b \<le> a \<Longrightarrow> a < size_t_mod \<Longrightarrow> size_sub a b = a - b"
proof -
  assume a: "b \<le> a" "a < size_t_mod"
  then have e: "a + size_t_mod - b = (a - b) + size_t_mod" by simp
  have l: "a - b < size_t_mod" using a by simp
  show ?thesis unfolding size_sub_def e using l by simp
qed

lemma below_max_size:
  "n \<le> vec_max_size \<Longrightarrow> n < NULL_INDEX \<and> n \<noteq> NULL_INDEX \<and> n < size_t_mod \<and> n + 1 < size_t_mod"
  using vec_max_size_lt_NULL NULL_INDEX_lt_mod by linarith

lemma nth_upd_cases:
  "(xs[i := x]) ! j = (if j = i \<and> i < length xs then x else xs ! j)"
  by (cases "i < length xs") (auto simp add: nth_list_update list_update_beyond)


lemma set_is_empty_simps [simp]:
  "empty_head (set_is_empty i v s) = empty_head s"
  "filled_head (set_is_empty i v s) = filled_head s"
  "empty_cnt (set_is_empty i v s) = empty_cnt s"
  "filled_cnt (set_is_empty i v s) = filled_cnt s"
  "length (elem_vec (set_is_empty i v s)) = length (elem_vec s)"
  "prev (elem_vec (set_is_empty i v s) ! j) = prev (elem_vec s ! j)"
  "next (elem_vec (set_is_empty i v s) ! j) = next (elem_vec s ! j)"
  "is_empty (elem_vec (set_is_empty i v s) ! j) =
     (if j = i \<and> i < length (elem_vec s) then v else is_empty (elem_vec s ! j))"
  by (simp_all add: set_is_empty_def nth_upd_cases)

lemma set_prev_simps [simp]:
  "empty_head (set_prev i v s) = empty_head s"
  "filled_head (set_prev i v s) = filled_head s"
  "empty_cnt (set_prev i v s) = empty_cnt s"
  "filled_cnt (set_prev i v s) = filled_cnt s"
  "length (elem_vec (set_prev i v s)) = length (elem_vec s)"
  "is_empty (elem_vec (set_prev i v s) ! j) = is_empty (elem_vec s ! j)"
  "next (elem_vec (set_prev i v s) ! j) = next (elem_vec s ! j)"
  "prev (elem_vec (set_prev i v s) ! j) =
     (if j = i \<and> i < length (elem_vec s) then v else prev (elem_vec s ! j))"
  by (simp_all add: set_prev_def nth_upd_cases)

lemma set_next_simps [simp]:
  "empty_head (set_next i v s) = empty_head s"
  "filled_head (set_next i v s) = filled_head s"
  "empty_cnt (set_next i v s) = empty_cnt s"
  "filled_cnt (set_next i v s) = filled_cnt s"
  "length (elem_vec (set_next i v s)) = length (elem_vec s)"
  "is_empty (elem_vec (set_next i v s) ! j) = is_empty (elem_vec s ! j)"
  "prev (elem_vec (set_next i v s) ! j) = prev (elem_vec s ! j)"
  "next (elem_vec (set_next i v s) ! j) =
     (if j = i \<and> i < length (elem_vec s) then v else next (elem_vec s ! j))"
  by (simp_all add: set_next_def nth_upd_cases)

lemma in_range_simps [simp]:
  "in_range (set_prev i v s) j = in_range s j"
  "in_range (set_next i v s) j = in_range s j"
  "in_range (set_is_empty i b s) j = in_range s j"
  "in_range (s\<lparr>empty_head := a\<rparr>) j = in_range s j"
  "in_range (s\<lparr>filled_head := a\<rparr>) j = in_range s j"
  "in_range (s\<lparr>empty_cnt := a\<rparr>) j = in_range s j"
  "in_range (s\<lparr>filled_cnt := a\<rparr>) j = in_range s j"
  by (simp_all add: in_range_def)

lemma vec_resize_simps [simp]:
  "empty_head (vec_resize n s) = empty_head s"
  "filled_head (vec_resize n s) = filled_head s"
  "empty_cnt (vec_resize n s) = empty_cnt s"
  "filled_cnt (vec_resize n s) = filled_cnt s"
  "length (elem_vec (vec_resize n s)) = n"
  by (simp_all add: vec_resize_def)

lemma vec_resize_nth:
  "j < n \<Longrightarrow> elem_vec (vec_resize n s) ! j = (if j < length (elem_vec s) then elem_vec s ! j else Elem)"
  by (simp add: vec_resize_def nth_append)

subsection \<open>Lists threaded through the vector\<close>

lemma dll_frame:
  "dll ev p h is \<Longrightarrow>
   (\<And>i. i \<in> set is \<Longrightarrow> i < length ev' \<and> prev (ev' ! i) = prev (ev ! i) \<and> next (ev' ! i) = next (ev ! i)) \<Longrightarrow>
   dll ev' p h is"
  by (induction "is" arbitrary: p h) auto

lemma dll_unique: "dll ev p h is \<Longrightarrow> dll ev p h js \<Longrightarrow> is = js"
proof (induction "is" arbitrary: p h js)
  case Nil
  then show ?case by (cases js) auto
next
  case (Cons i "is")
  then show ?case by (cases js) auto
qed

lemma dll_walk: "dll ev p h is \<Longrightarrow> length is \<le> k \<Longrightarrow> walk ev k h = is"
proof (induction "is" arbitrary: p h k)
  case Nil
  then show ?case by (cases k) auto
next
  case (Cons i "is")
  then show ?case by (cases k) auto
qed

lemma dll_in_range: "dll ev p h is \<Longrightarrow> i \<in> set is \<Longrightarrow> i < length ev \<and> i \<noteq> NULL_INDEX"
  by (induction "is" arbitrary: p h) auto

lemma dll_head: "dll ev p h is \<Longrightarrow> h = (if is = [] then NULL_INDEX else hd is)"
  by (cases "is") auto

lemma dll_mid:
  "dll ev p h (xs @ i # ys) \<Longrightarrow>
     prev (ev ! i) = last (p # xs) \<and> next (ev ! i) = hd (ys @ [NULL_INDEX])"
proof (induction xs arbitrary: p h)
  case Nil
  then have "prev (ev ! i) = p" and "dll ev i (next (ev ! i)) ys" by simp_all
  then show ?case by (cases ys) simp_all
next
  case (Cons x xs)
  from Cons.prems have "dll ev x (next (ev ! x)) (xs @ i # ys)" by simp
  from Cons.IH[OF this] show ?case by simp
qed

lemma distinct_in_range_length:
  "distinct xs \<Longrightarrow> set xs \<subseteq> {i. i < n} \<Longrightarrow> length xs \<le> n"
proof -
  assume d: "distinct xs" and s: "set xs \<subseteq> {i. i < n}"
  have "length xs = card (set xs)" using d by (simp add: distinct_card)
  also have "\<dots> \<le> card {i. i < n}" using s by (intro card_mono) auto
  finally show ?thesis by simp
qed

lemma wf_lists_lengths:
  assumes "wf_lists s fl ul"
  shows "length fl + length ul = length (elem_vec s)"
proof -
  let ?n = "length (elem_vec s)"
  from assms have d: "distinct fl" "distinct ul"
    and sf: "set fl = {i. i < ?n \<and> is_empty (elem_vec s ! i)}"
    and su: "set ul = {i. i < ?n \<and> \<not> is_empty (elem_vec s ! i)}"
    by (simp_all add: wf_lists_def)
  have dj: "set fl \<inter> set ul = {}" using sf su by auto
  have un: "set fl \<union> set ul = {i. i < ?n}" using sf su by auto
  have "length fl + length ul = card (set fl) + card (set ul)"
    using d by (simp add: distinct_card)
  also have "\<dots> = card (set fl \<union> set ul)"
    using dj by (simp add: card_Un_disjoint)
  also have "\<dots> = ?n" using un by simp
  finally show ?thesis .
qed

lemma wf_lists_unique:
  assumes "wf_lists s fl ul" "wf_lists s fl' ul'"
  shows "fl = fl' \<and> ul = ul'"
proof
  from assms have "dll (elem_vec s) NULL_INDEX (empty_head s) fl"
    "dll (elem_vec s) NULL_INDEX (empty_head s) fl'"
    by (simp_all add: wf_lists_def)
  then show "fl = fl'" by (rule dll_unique)
  from assms have "dll (elem_vec s) NULL_INDEX (filled_head s) ul"
    "dll (elem_vec s) NULL_INDEX (filled_head s) ul'"
    by (simp_all add: wf_lists_def)
  then show "ul = ul'" by (rule dll_unique)
qed

lemma wf_lists_free_list:
  assumes "wf_lists s fl ul"
  shows "free_list s = fl"
proof -
  from assms have d: "dll (elem_vec s) NULL_INDEX (empty_head s) fl"
    by (simp add: wf_lists_def)
  have "length fl \<le> length (elem_vec s)"
    using wf_lists_lengths[OF assms] by simp
  with d show ?thesis unfolding free_list_def by (rule dll_walk)
qed

lemma wf_lists_used_list:
  assumes "wf_lists s fl ul"
  shows "used_list s = ul"
proof -
  from assms have d: "dll (elem_vec s) NULL_INDEX (filled_head s) ul"
    by (simp add: wf_lists_def)
  have "length ul \<le> length (elem_vec s)"
    using wf_lists_lengths[OF assms] by simp
  with d show ?thesis unfolding used_list_def by (rule dll_walk)
qed

lemma wf_iff: "wf_slab s \<longleftrightarrow> (\<exists>fl ul. wf_lists s fl ul)"
proof
  assume "wf_slab s"
  then show "\<exists>fl ul. wf_lists s fl ul" unfolding wf_slab_def by blast
next
  assume "\<exists>fl ul. wf_lists s fl ul"
  then obtain fl ul where w: "wf_lists s fl ul" by blast
  then show "wf_slab s"
    unfolding wf_slab_def using wf_lists_free_list[OF w] wf_lists_used_list[OF w] by simp
qed

subsection \<open>Pushing, popping and unlinking\<close>

lemma dll_rehead:
  assumes "dll ev p h is" and "distinct is"
    and "\<And>j. j \<in> set is \<Longrightarrow> j < length ev' \<and> next (ev' ! j) = next (ev ! j) \<and>
            prev (ev' ! j) = (if j = h then q else prev (ev ! j))"
  shows "dll ev' q h is"
proof (cases "is")
  case Nil
  with assms(1) show ?thesis by simp
next
  case (Cons i r)
  with assms(1) have h: "h = i" "i \<noteq> NULL_INDEX" and t: "dll ev i (next (ev ! i)) r"
    by simp_all
  from assms(2) Cons have ni: "i \<notin> set r" by simp
  have "dll ev' i (next (ev ! i)) r"
  proof (rule dll_frame[OF t])
    fix j assume j: "j \<in> set r"
    with ni have "j \<noteq> h" using h by auto
    with assms(3)[of j] j Cons
    show "j < length ev' \<and> prev (ev' ! j) = prev (ev ! j) \<and> next (ev' ! j) = next (ev ! j)"
      by simp
  qed
  moreover from assms(3)[of i] Cons h
  have "i < length ev'" "next (ev' ! i) = next (ev ! i)" "prev (ev' ! i) = q" by simp_all
  ultimately show ?thesis using Cons h by simp
qed

lemma dll_push:
  assumes "dll ev p h is" and "distinct is" and "x \<notin> set is"
    and "x < length ev'" and "x \<noteq> NULL_INDEX"
    and "prev (ev' ! x) = q" and "next (ev' ! x) = h"
    and "\<And>j. j \<in> set is \<Longrightarrow> j < length ev' \<and> next (ev' ! j) = next (ev ! j) \<and>
            prev (ev' ! j) = (if j = h then x else prev (ev ! j))"
  shows "dll ev' q x (x # is)"
proof -
  have "dll ev' x h is" by (rule dll_rehead[OF assms(1,2,8)])
  with assms(4-7) show ?thesis by simp
qed

lemma dll_pop:
  assumes "dll ev p h (x # is)" and "distinct (x # is)"
    and "\<And>j. j \<in> set is \<Longrightarrow> j < length ev' \<and> next (ev' ! j) = next (ev ! j) \<and>
            prev (ev' ! j) = (if j = next (ev ! x) then q else prev (ev ! j))"
  shows "dll ev' q (next (ev ! x)) is"
proof -
  from assms(1) have "dll ev x (next (ev ! x)) is" by simp
  moreover from assms(2) have "distinct is" by simp
  ultimately show ?thesis using assms(3) by (rule dll_rehead)
qed

lemma dll_unlink:
  assumes "dll ev p h (xs @ i # ys)" and "distinct (xs @ i # ys)"
    and "p \<notin> set (xs @ i # ys)"
    and "\<And>j. j \<in> set xs \<union> set ys \<Longrightarrow> j < length ev' \<and>
            next (ev' ! j) = (if j = prev (ev ! i) then next (ev ! i) else next (ev ! j)) \<and>
            prev (ev' ! j) = (if j = next (ev ! i) then prev (ev ! i) else prev (ev ! j))"
  shows "dll ev' p (if xs = [] then next (ev ! i) else h) (xs @ ys)"
  using assms
proof (induction xs arbitrary: p h)
  case Nil
  from Nil.prems(1) have pi: "prev (ev ! i) = p" and t: "dll ev i (next (ev ! i)) ys"
    by simp_all
  from Nil.prems(2) have d: "distinct ys" by simp
  have "dll ev' p (next (ev ! i)) ys"
  proof (rule dll_rehead[OF t d])
    fix j assume j: "j \<in> set ys"
    with Nil.prems(3) have "j \<noteq> p" by auto
    with Nil.prems(4)[of j] j pi
    show "j < length ev' \<and> next (ev' ! j) = next (ev ! j) \<and>
          prev (ev' ! j) = (if j = next (ev ! i) then p else prev (ev ! j))"
      by simp
  qed
  then show ?case by simp
next
  case (Cons x xs)
  from Cons.prems(1) have hx: "h = x" "x \<noteq> NULL_INDEX" "prev (ev ! x) = p"
    and t: "dll ev x (next (ev ! x)) (xs @ i # ys)" by simp_all
  from Cons.prems(2) have d: "distinct (xs @ i # ys)" and nx: "x \<notin> set (xs @ i # ys)"
    by simp_all
  have ih: "dll ev' x (if xs = [] then next (ev ! i) else next (ev ! x)) (xs @ ys)"
  proof (rule Cons.IH[OF t d nx])
    fix j assume "j \<in> set xs \<union> set ys"
    then have "j \<in> set (x # xs) \<union> set ys" by auto
    from Cons.prems(4)[OF this]
    show "j < length ev' \<and>
          next (ev' ! j) = (if j = prev (ev ! i) then next (ev ! i) else next (ev ! j)) \<and>
          prev (ev' ! j) = (if j = next (ev ! i) then prev (ev ! i) else prev (ev ! j))" .
  qed
  from dll_mid[OF t] have pv: "prev (ev ! i) = last (x # xs)"
    and nv: "next (ev ! i) = hd (ys @ [NULL_INDEX])" by simp_all
  have xne: "x \<noteq> next (ev ! i)"
  proof (cases ys)
    case Nil
    with nv hx show ?thesis by simp
  next
    case (Cons y r)
    with nv nx show ?thesis by auto
  qed
  have "x \<in> set (x # xs) \<union> set ys" by simp
  from Cons.prems(4)[OF this] xne
  have x1: "x < length ev'" and x2: "prev (ev' ! x) = prev (ev ! x)"
    and x3: "next (ev' ! x) = (if x = prev (ev ! i) then next (ev ! i) else next (ev ! x))"
    by simp_all
  have "next (ev' ! x) = (if xs = [] then next (ev ! i) else next (ev ! x))"
  proof (cases "xs = []")
    case True
    with pv x3 show ?thesis by simp
  next
    case False
    then have "last (x # xs) \<in> set xs" by simp
    with nx have "last (x # xs) \<noteq> x" by auto
    with pv x3 False show ?thesis by simp
  qed
  with ih x1 x2 hx show ?case by simp
qed

subsection \<open>acquire from the empty list\<close>

lemma wf_lists_mem:
  assumes "wf_lists s fl ul"
  shows "i \<in> set fl \<longleftrightarrow> i < length (elem_vec s) \<and> is_empty (elem_vec s ! i)"
    and "i \<in> set ul \<longleftrightarrow> i < length (elem_vec s) \<and> \<not> is_empty (elem_vec s ! i)"
  using assms by (simp_all add: wf_lists_def)

lemma wf_lists_heads:
  assumes "wf_lists s fl ul"
  shows "empty_head s \<noteq> NULL_INDEX \<Longrightarrow> empty_head s < length (elem_vec s)"
    and "filled_head s \<noteq> NULL_INDEX \<Longrightarrow> filled_head s < length (elem_vec s)"
    and "empty_head s = hd (fl @ [NULL_INDEX])"
    and "filled_head s = hd (ul @ [NULL_INDEX])"
proof -
  from assms have d: "dll (elem_vec s) NULL_INDEX (empty_head s) fl"
    "dll (elem_vec s) NULL_INDEX (filled_head s) ul" by (simp_all add: wf_lists_def)
  show "empty_head s \<noteq> NULL_INDEX \<Longrightarrow> empty_head s < length (elem_vec s)"
    using d(1) by (cases fl) simp_all
  show "filled_head s \<noteq> NULL_INDEX \<Longrightarrow> filled_head s < length (elem_vec s)"
    using d(2) by (cases ul) simp_all
  show "empty_head s = hd (fl @ [NULL_INDEX])" using d(1) by (cases fl) simp_all
  show "filled_head s = hd (ul @ [NULL_INDEX])" using d(2) by (cases ul) simp_all
qed

lemma acquire_nonempty_fields:
  assumes w: "wf_lists s (x # fl) ul"
  shows "fst (acquire s) = Inr x"
    and "empty_head (snd (acquire s)) = next (elem_vec s ! x)"
    and "filled_head (snd (acquire s)) = x"
    and "empty_cnt (snd (acquire s)) = size_sub (empty_cnt s) 1"
    and "filled_cnt (snd (acquire s)) = size_add (filled_cnt s) 1"
    and "length (elem_vec (snd (acquire s))) = length (elem_vec s)"
    and "is_empty (elem_vec (snd (acquire s)) ! j) = (j \<noteq> x \<and> is_empty (elem_vec s ! j))"
    and "next (elem_vec (snd (acquire s)) ! j) =
           (if j = x then filled_head s else next (elem_vec s ! j))"
    and "j < length (elem_vec s) \<Longrightarrow> prev (elem_vec (snd (acquire s)) ! j) =
           (if j = x then NULL_INDEX
            else if j = filled_head s then x
            else if j = next (elem_vec s ! x) then NULL_INDEX
            else prev (elem_vec s ! j))"
proof -
  let ?ev = "elem_vec s"
  let ?y = "next (?ev ! x)"
  from w have d: "dll ?ev NULL_INDEX (empty_head s) (x # fl)" by (simp add: wf_lists_def)
  then have x: "empty_head s = x" "x \<noteq> NULL_INDEX" "x < length ?ev"
    and t: "dll ?ev x ?y fl" by simp_all
  have y: "?y \<noteq> NULL_INDEX \<Longrightarrow> ?y < length ?ev" using t by (cases fl) simp_all
  have f: "filled_head s \<noteq> NULL_INDEX \<Longrightarrow> filled_head s < length ?ev"
    by (rule wf_lists_heads(2)[OF w])
  have fx: "filled_head s \<noteq> x"
  proof
    assume e: "filled_head s = x"
    with x f have "x \<in> set ul" using wf_lists_heads(4)[OF w] by (cases ul) auto
    moreover have "x \<in> set (x # fl)" by simp
    ultimately show False using wf_lists_mem[OF w, of x] by blast
  qed
  have yx: "?y \<noteq> NULL_INDEX \<Longrightarrow> ?y \<noteq> x"
  proof -
    assume "?y \<noteq> NULL_INDEX"
    with t have "?y \<in> set fl" by (cases fl) auto
    moreover from w have "distinct (x # fl)" by (simp add: wf_lists_def)
    ultimately show "?y \<noteq> x" by auto
  qed
  have yf: "?y \<noteq> NULL_INDEX \<Longrightarrow> ?y \<noteq> filled_head s"
  proof
    assume a: "?y \<noteq> NULL_INDEX" "?y = filled_head s"
    with t have "?y \<in> set (x # fl)" by (cases fl) auto
    moreover from a f have "?y \<in> set ul" using wf_lists_heads(4)[OF w] by (cases ul) auto
    ultimately show False using wf_lists_mem[OF w, of ?y] by blast
  qed
  note facts = x y f fx yx yf
  show "fst (acquire s) = Inr x"
    using facts by (cases "filled_head s = NULL_INDEX") (simp_all add: acquire_def Let_def in_range_def)
  show "empty_head (snd (acquire s)) = ?y"
    using facts by (cases "filled_head s = NULL_INDEX") (simp_all add: acquire_def Let_def in_range_def)
  show "filled_head (snd (acquire s)) = x"
    using facts by (cases "filled_head s = NULL_INDEX") (simp_all add: acquire_def Let_def in_range_def)
  show "empty_cnt (snd (acquire s)) = size_sub (empty_cnt s) 1"
    using facts by (cases "filled_head s = NULL_INDEX") (simp_all add: acquire_def Let_def in_range_def)
  show "filled_cnt (snd (acquire s)) = size_add (filled_cnt s) 1"
    using facts by (cases "filled_head s = NULL_INDEX") (simp_all add: acquire_def Let_def in_range_def)
  show "length (elem_vec (snd (acquire s))) = length (elem_vec s)"
    using facts by (cases "filled_head s = NULL_INDEX") (simp_all add: acquire_def Let_def in_range_def)
  show "is_empty (elem_vec (snd (acquire s)) ! j) = (j \<noteq> x \<and> is_empty (elem_vec s ! j))"
    using facts by (cases "filled_head s = NULL_INDEX") (simp_all add: acquire_def Let_def in_range_def)
  show "next (elem_vec (snd (acquire s)) ! j) =
           (if j = x then filled_head s else next (elem_vec s ! j))"
    using facts by (cases "filled_head s = NULL_INDEX") (simp_all add: acquire_def Let_def in_range_def)
  have nn: "\<And>k. k < length ?ev \<Longrightarrow> k \<noteq> NULL_INDEX"
    using w below_max_size unfolding wf_lists_def by (metis le_trans less_imp_le_nat)
  show "j < length (elem_vec s) \<Longrightarrow> prev (elem_vec (snd (acquire s)) ! j) =
           (if j = x then NULL_INDEX
            else if j = filled_head s then x
            else if j = next (elem_vec s ! x) then NULL_INDEX
            else prev (elem_vec s ! j))"
    using facts nn[of j] by (cases "filled_head s = NULL_INDEX") (simp_all add: acquire_def Let_def in_range_def)
qed

lemma size_cnt_simps:
  assumes "wf_lists s fl ul"
  shows "length fl \<le> vec_max_size" "length ul \<le> vec_max_size"
    "length fl < size_t_mod" "length ul < size_t_mod"
    "length fl + length ul \<le> vec_max_size"
proof -
  from assms have "length (elem_vec s) \<le> vec_max_size" by (simp add: wf_lists_def)
  with wf_lists_lengths[OF assms] show "length fl + length ul \<le> vec_max_size" by simp
  then show "length fl \<le> vec_max_size" "length ul \<le> vec_max_size" by simp_all
  then show "length fl < size_t_mod" "length ul < size_t_mod"
    using below_max_size by blast+
qed

lemma acquire_nonempty_wf:
  assumes w: "wf_lists s (x # fl) ul"
  shows "wf_lists (snd (acquire s)) fl (x # ul)"
proof -
  let ?ev = "elem_vec s"
  let ?s' = "snd (acquire s)"
  let ?ev' = "elem_vec ?s'"
  note F = acquire_nonempty_fields[OF w]
  from w have n: "1 \<le> length ?ev" "length ?ev \<le> vec_max_size"
    and de: "dll ?ev NULL_INDEX (empty_head s) (x # fl)"
    and du: "dll ?ev NULL_INDEX (filled_head s) ul"
    and dist: "distinct (x # fl)" "distinct ul"
    and cnt: "empty_cnt s = length (x # fl)" "filled_cnt s = length ul"
    by (simp_all add: wf_lists_def)
  note M = wf_lists_mem[OF w]
  have xu: "x \<notin> set ul" using M(1)[of x] M(2)[of x] by auto
  have disj: "\<And>j. j \<in> set fl \<Longrightarrow> j \<notin> set ul" using M by auto
  have c1: "dll ?ev' NULL_INDEX (empty_head ?s') fl"
    unfolding F(2)
  proof (rule dll_pop[OF de dist(1)])
    fix j assume j: "j \<in> set fl"
    then have "j \<noteq> x" using dist(1) by auto
    moreover have "j \<noteq> filled_head s"
    proof
      assume e: "j = filled_head s"
      from j de have "j \<noteq> NULL_INDEX" using dll_in_range[OF de, of j] by simp
      with e du have "j \<in> set ul" by (cases ul) auto
      with disj[OF j] show False by simp
    qed
    moreover have "j < length ?ev" using M(1)[of j] j by simp
    ultimately show "j < length ?ev' \<and> next (?ev' ! j) = next (?ev ! j) \<and>
        prev (?ev' ! j) = (if j = next (?ev ! x) then NULL_INDEX else prev (?ev ! j))"
      by (simp add: F)
  qed
  have c2: "dll ?ev' NULL_INDEX (filled_head ?s') (x # ul)"
    unfolding F(3)
  proof (rule dll_push[OF du dist(2) xu])
    show "x < length ?ev'" using de by (simp add: F)
    show "x \<noteq> NULL_INDEX" using de by simp
    show "prev (?ev' ! x) = NULL_INDEX" using de by (simp add: F)
    show "next (?ev' ! x) = filled_head s" by (simp add: F)
    fix j assume j: "j \<in> set ul"
    then have jx: "j \<noteq> x" using xu by auto
    have jn: "j \<noteq> NULL_INDEX" using dll_in_range[OF du j] by simp
    have "j \<noteq> next (?ev ! x)"
    proof
      assume e: "j = next (?ev ! x)"
      from de have "dll ?ev x (next (?ev ! x)) fl" by simp
      with e jn have "j \<in> set fl" by (cases fl) auto
      with disj j show False by auto
    qed
    moreover have "j < length ?ev" using M(2)[of j] j by simp
    ultimately show "j < length ?ev' \<and> next (?ev' ! j) = next (?ev ! j) \<and>
        prev (?ev' ! j) = (if j = filled_head s then x else prev (?ev ! j))"
      using jx by (simp add: F)
  qed
  have c3: "set fl = {i. i < length ?ev' \<and> is_empty (?ev' ! i)}"
    using M(1) dist(1) by (auto simp add: F)
  have c4: "set (x # ul) = {i. i < length ?ev' \<and> \<not> is_empty (?ev' ! i)}"
    using M(2) de by (auto simp add: F)
  have c5: "empty_cnt ?s' = length fl"
    using size_cnt_simps(3)[OF w] cnt by (simp add: F size_sub_small)
  have "length (x # fl) + length ul \<le> vec_max_size" by (rule size_cnt_simps(5)[OF w])
  then have "length ul + 1 < size_t_mod" using below_max_size[of "length ul + 1"] by simp
  then have c6: "filled_cnt ?s' = length (x # ul)"
    using cnt by (simp add: F size_add_small)
  show ?thesis
    unfolding wf_lists_def
    using n c1 c2 c3 c4 c5 c6 dist xu by (simp add: F(6))
qed

subsection \<open>acquire by growing the vector\<close>

lemma wf_lists_not_NULL:
  assumes "wf_lists s fl ul" and "k \<le> length (elem_vec s)"
  shows "k \<noteq> NULL_INDEX"
proof -
  from assms have "k \<le> vec_max_size" by (simp add: wf_lists_def)
  then show ?thesis using below_max_size by blast
qed

lemma acquire_full:
  assumes w: "wf_lists s [] ul" and "\<not> length (elem_vec s) < vec_max_size"
  shows "acquire s = (Inl LengthError, s)"
proof -
  from w have "empty_head s = NULL_INDEX" by (simp add: wf_lists_def)
  with assms(2) show ?thesis by (simp add: acquire_def Let_def)
qed

lemma acquire_grow_fields:
  assumes w: "wf_lists s [] ul" and r: "length (elem_vec s) < vec_max_size"
  shows "fst (acquire s) = Inr (length (elem_vec s))"
    and "empty_head (snd (acquire s)) = NULL_INDEX"
    and "filled_head (snd (acquire s)) = length (elem_vec s)"
    and "empty_cnt (snd (acquire s)) = empty_cnt s"
    and "filled_cnt (snd (acquire s)) = size_add (filled_cnt s) 1"
    and "length (elem_vec (snd (acquire s))) = length (elem_vec s) + 1"
    and "j \<le> length (elem_vec s) \<Longrightarrow> is_empty (elem_vec (snd (acquire s)) ! j) =
           (j \<noteq> length (elem_vec s) \<and> is_empty (elem_vec s ! j))"
    and "j \<le> length (elem_vec s) \<Longrightarrow> next (elem_vec (snd (acquire s)) ! j) =
           (if j = length (elem_vec s) then filled_head s else next (elem_vec s ! j))"
    and "j \<le> length (elem_vec s) \<Longrightarrow> prev (elem_vec (snd (acquire s)) ! j) =
           (if j = length (elem_vec s) then NULL_INDEX
            else if j = filled_head s then length (elem_vec s)
            else prev (elem_vec s ! j))"
proof -
  let ?ev = "elem_vec s"
  from w have e: "empty_head s = NULL_INDEX" by (simp add: wf_lists_def)
  have f: "filled_head s \<noteq> NULL_INDEX \<Longrightarrow> filled_head s < length ?ev"
    by (rule wf_lists_heads(2)[OF w])
  have nn: "\<And>k. k \<le> length ?ev \<Longrightarrow> k \<noteq> NULL_INDEX"
    by (rule wf_lists_not_NULL[OF w])
  note facts = e f r
  show "fst (acquire s) = Inr (length (elem_vec s))"
    using facts by (cases "filled_head s = NULL_INDEX") (simp_all add: acquire_def Let_def in_range_def)
  show "empty_head (snd (acquire s)) = NULL_INDEX"
    using facts by (cases "filled_head s = NULL_INDEX") (simp_all add: acquire_def Let_def in_range_def)
  show "filled_head (snd (acquire s)) = length (elem_vec s)"
    using facts by (cases "filled_head s = NULL_INDEX") (simp_all add: acquire_def Let_def in_range_def)
  show "empty_cnt (snd (acquire s)) = empty_cnt s"
    using facts by (cases "filled_head s = NULL_INDEX") (simp_all add: acquire_def Let_def in_range_def)
  show "filled_cnt (snd (acquire s)) = size_add (filled_cnt s) 1"
    using facts by (cases "filled_head s = NULL_INDEX") (simp_all add: acquire_def Let_def in_range_def)
  show "length (elem_vec (snd (acquire s))) = length (elem_vec s) + 1"
    using facts by (cases "filled_head s = NULL_INDEX") (simp_all add: acquire_def Let_def in_range_def)
  show "j \<le> length (elem_vec s) \<Longrightarrow> is_empty (elem_vec (snd (acquire s)) ! j) =
           (j \<noteq> length (elem_vec s) \<and> is_empty (elem_vec s ! j))"
    using facts by (cases "filled_head s = NULL_INDEX")
      (simp_all add: acquire_def Let_def in_range_def nth_append)
  show "j \<le> length (elem_vec s) \<Longrightarrow> next (elem_vec (snd (acquire s)) ! j) =
           (if j = length (elem_vec s) then filled_head s else next (elem_vec s ! j))"
    using facts by (cases "filled_head s = NULL_INDEX")
      (simp_all add: acquire_def Let_def in_range_def nth_append)
  show "j \<le> length (elem_vec s) \<Longrightarrow> prev (elem_vec (snd (acquire s)) ! j) =
           (if j = length (elem_vec s) then NULL_INDEX
            else if j = filled_head s then length (elem_vec s)
            else prev (elem_vec s ! j))"
    using facts nn[of j] by (cases "filled_head s = NULL_INDEX")
      (simp_all add: acquire_def Let_def in_range_def nth_append)
qed

lemma acquire_grow_wf:
  assumes w: "wf_lists s [] ul" and r: "length (elem_vec s) < vec_max_size"
  shows "wf_lists (snd (acquire s)) [] (length (elem_vec s) # ul)"
proof -
  let ?ev = "elem_vec s"
  let ?n = "length ?ev"
  let ?s' = "snd (acquire s)"
  let ?ev' = "elem_vec ?s'"
  note F = acquire_grow_fields[OF w r]
  from w have du: "dll ?ev NULL_INDEX (filled_head s) ul"
    and dist: "distinct ul"
    and cnt: "empty_cnt s = 0" "filled_cnt s = length ul"
    by (simp_all add: wf_lists_def)
  note M = wf_lists_mem[OF w]
  have xu: "?n \<notin> set ul" using M(2)[of ?n] by simp
  have c2: "dll ?ev' NULL_INDEX (filled_head ?s') (?n # ul)"
    unfolding F(3)
  proof (rule dll_push[OF du dist xu])
    show "?n < length ?ev'" by (simp add: F)
    show "?n \<noteq> NULL_INDEX" by (rule wf_lists_not_NULL[OF w]) simp
    show "prev (?ev' ! ?n) = NULL_INDEX" by (simp add: F)
    show "next (?ev' ! ?n) = filled_head s" by (simp add: F)
    fix j assume j: "j \<in> set ul"
    then have "j < ?n" using M(2)[of j] by simp
    then show "j < length ?ev' \<and> next (?ev' ! j) = next (?ev ! j) \<and>
        prev (?ev' ! j) = (if j = filled_head s then ?n else prev (?ev ! j))"
      by (simp add: F)
  qed
  have le: "\<And>i. i < length ?ev' \<longleftrightarrow> i \<le> ?n" by (simp add: F(6) less_Suc_eq_le)
  have em: "\<And>i. i \<le> ?n \<Longrightarrow> is_empty (?ev' ! i) = (i \<noteq> ?n \<and> is_empty (?ev ! i))"
    by (rule F(7))
  have c3: "{i. i < length ?ev' \<and> is_empty (?ev' ! i)} = {}"
  proof -
    { fix i assume a: "i < length ?ev'" "is_empty (?ev' ! i)"
      then have "i \<le> ?n" using le by simp
      with a(2) em have "i \<noteq> ?n \<and> is_empty (?ev ! i)" by simp
      with \<open>i \<le> ?n\<close> have "i \<in> set []" using M(1)[of i] by simp
      then have False by simp }
    then show ?thesis by blast
  qed
  have c4: "set (?n # ul) = {i. i < length ?ev' \<and> \<not> is_empty (?ev' ! i)}"
  proof (rule set_eqI)
    fix i
    show "i \<in> set (?n # ul) \<longleftrightarrow> i \<in> {i. i < length ?ev' \<and> \<not> is_empty (?ev' ! i)}"
    proof (cases "i \<le> ?n")
      case True
      then show ?thesis using M(2)[of i] le[of i] em[of i] by auto
    next
      case False
      then show ?thesis using M(2)[of i] le[of i] by auto
    qed
  qed
  have "length ul = ?n" using wf_lists_lengths[OF w] by simp
  with r have "length ul + 1 < size_t_mod" using below_max_size[of "length ul + 1"] by simp
  then have c6: "filled_cnt ?s' = length (?n # ul)"
    using cnt by (simp add: F size_add_small)
  have c0: "1 \<le> length ?ev'" "length ?ev' \<le> vec_max_size" using r by (simp_all add: F(6))
  have c1: "dll ?ev' NULL_INDEX (empty_head ?s') []" by (simp add: F(2))
  have c5: "empty_cnt ?s' = length ([]::nat list)" using cnt by (simp add: F(4))
  have c7: "distinct (?n # ul)" using dist xu by simp
  show ?thesis
    unfolding wf_lists_def
    using c0 c1 c2 c3 c4 c5 c6 c7 by simp
qed

subsection \<open>give\_back: fields\<close>

lemma give_back_out_of_range:
  "\<not> ind < length (elem_vec s) \<Longrightarrow> give_back s ind = (Inl OutOfRange, s)"
  by (simp add: give_back_def is_slot_empty_def)

lemma give_back_double:
  "ind < length (elem_vec s) \<Longrightarrow> is_empty (elem_vec s ! ind) \<Longrightarrow>
   give_back s ind = (Inl LogicError, s)"
  by (simp add: give_back_def is_slot_empty_def)

lemma give_back_fields:
  assumes w: "wf_lists s fl (xs @ ind # ys)"
  shows "fst (give_back s ind) = Inr ()"
    and "empty_head (snd (give_back s ind)) = ind"
    and "filled_head (snd (give_back s ind)) =
           (if xs = [] then next (elem_vec s ! ind) else filled_head s)"
    and "empty_cnt (snd (give_back s ind)) = size_add (empty_cnt s) 1"
    and "filled_cnt (snd (give_back s ind)) = size_sub (filled_cnt s) 1"
    and "length (elem_vec (snd (give_back s ind))) = length (elem_vec s)"
    and "is_empty (elem_vec (snd (give_back s ind)) ! j) = (j = ind \<or> is_empty (elem_vec s ! j))"
    and "j < length (elem_vec s) \<Longrightarrow> next (elem_vec (snd (give_back s ind)) ! j) =
           (if j = ind then empty_head s
            else if j = prev (elem_vec s ! ind) then next (elem_vec s ! ind)
            else next (elem_vec s ! j))"
    and "j < length (elem_vec s) \<Longrightarrow> prev (elem_vec (snd (give_back s ind)) ! j) =
           (if j = ind then NULL_INDEX
            else if j = empty_head s then ind
            else if j = next (elem_vec s ! ind) then prev (elem_vec s ! ind)
            else prev (elem_vec s ! j))"
proof -
  let ?ev = "elem_vec s"
  let ?n = "length ?ev"
  let ?ul = "xs @ ind # ys"
  let ?p = "prev (?ev ! ind)"
  let ?q = "next (?ev ! ind)"
  note M = wf_lists_mem[OF w]
  from w have du: "dll ?ev NULL_INDEX (filled_head s) ?ul"
    and de: "dll ?ev NULL_INDEX (empty_head s) fl"
    and dist: "distinct ?ul" by (simp_all add: wf_lists_def)
  have nn: "\<And>k. k < ?n \<Longrightarrow> k \<noteq> NULL_INDEX"
    using wf_lists_not_NULL[OF w] by simp
  have i: "ind < ?n" "\<not> is_empty (?ev ! ind)" using M(2)[of ind] by simp_all
  from dll_mid[OF du] have pq: "?p = last (NULL_INDEX # xs)" "?q = hd (ys @ [NULL_INDEX])"
    by simp_all
  have nullu: "\<And>k. k \<in> set ?ul \<Longrightarrow> k \<noteq> NULL_INDEX"
    using dll_in_range[OF du] by blast
  have p: "?p \<noteq> NULL_INDEX \<Longrightarrow> ?p \<in> set xs" using pq(1) by (cases "xs = []") simp_all
  have q: "?q \<noteq> NULL_INDEX \<Longrightarrow> ?q \<in> set ys" using pq(2) by (cases ys) simp_all
  have e: "empty_head s \<noteq> NULL_INDEX \<Longrightarrow> empty_head s \<in> set fl"
    using de by (cases fl) simp_all
  have px: "?p = NULL_INDEX \<longleftrightarrow> xs = []"
  proof (cases "xs = []")
    case True then show ?thesis using pq(1) by simp
  next
    case False
    then have "last xs \<in> set ?ul" by simp
    from nullu[OF this] False show ?thesis using pq(1) by simp
  qed
  have pr: "?p \<noteq> NULL_INDEX \<Longrightarrow> ?p < ?n" using p M(2)[of ?p] by simp
  have qr: "?q \<noteq> NULL_INDEX \<Longrightarrow> ?q < ?n" using q M(2)[of ?q] by simp
  have er: "empty_head s \<noteq> NULL_INDEX \<Longrightarrow> empty_head s < ?n" using e M(1)[of "empty_head s"] by simp
  have ne1: "?p \<noteq> NULL_INDEX \<Longrightarrow> ?p \<noteq> ind" using p dist by auto
  have ne2: "?q \<noteq> NULL_INDEX \<Longrightarrow> ?q \<noteq> ind" using q dist by auto
  have ne3: "empty_head s \<noteq> NULL_INDEX \<Longrightarrow> empty_head s \<noteq> ind"
    using e M(1)[of ind] i by auto
  have ne4: "?p \<noteq> NULL_INDEX \<Longrightarrow> ?p \<noteq> ?q" using p q dist by (cases "?q = NULL_INDEX") auto
  have ne5: "empty_head s \<noteq> NULL_INDEX \<Longrightarrow> empty_head s \<noteq> ?p"
    using e p M(1)[of "empty_head s"] M(2)[of "empty_head s"] by (cases "?p = NULL_INDEX") auto
  have ne6: "empty_head s \<noteq> NULL_INDEX \<Longrightarrow> empty_head s \<noteq> ?q"
    using e q M(1)[of "empty_head s"] M(2)[of "empty_head s"] by (cases "?q = NULL_INDEX") auto
  have fh: "xs = [] \<Longrightarrow> filled_head s = ind" using du by simp
  note facts = i pr qr er ne1 ne2 ne3 ne4 ne5 ne6 px
  show "fst (give_back s ind) = Inr ()"
    using facts
    by (cases "?p = NULL_INDEX"; cases "?q = NULL_INDEX"; cases "empty_head s = NULL_INDEX")
       (simp_all add: give_back_def is_slot_empty_def Let_def in_range_def)
  show "empty_head (snd (give_back s ind)) = ind"
    using facts
    by (cases "?p = NULL_INDEX"; cases "?q = NULL_INDEX"; cases "empty_head s = NULL_INDEX")
       (simp_all add: give_back_def is_slot_empty_def Let_def in_range_def)
  show "filled_head (snd (give_back s ind)) = (if xs = [] then ?q else filled_head s)"
    using facts
    by (cases "?p = NULL_INDEX"; cases "?q = NULL_INDEX"; cases "empty_head s = NULL_INDEX")
       (simp_all add: give_back_def is_slot_empty_def Let_def in_range_def)
  show "empty_cnt (snd (give_back s ind)) = size_add (empty_cnt s) 1"
    using facts
    by (cases "?p = NULL_INDEX"; cases "?q = NULL_INDEX"; cases "empty_head s = NULL_INDEX")
       (simp_all add: give_back_def is_slot_empty_def Let_def in_range_def)
  show "filled_cnt (snd (give_back s ind)) = size_sub (filled_cnt s) 1"
    using facts
    by (cases "?p = NULL_INDEX"; cases "?q = NULL_INDEX"; cases "empty_head s = NULL_INDEX")
       (simp_all add: give_back_def is_slot_empty_def Let_def in_range_def)
  show "length (elem_vec (snd (give_back s ind))) = length (elem_vec s)"
    using facts
    by (cases "?p = NULL_INDEX"; cases "?q = NULL_INDEX"; cases "empty_head s = NULL_INDEX")
       (simp_all add: give_back_def is_slot_empty_def Let_def in_range_def)
  show "is_empty (elem_vec (snd (give_back s ind)) ! j) = (j = ind \<or> is_empty (elem_vec s ! j))"
    using facts
    by (cases "?p = NULL_INDEX"; cases "?q = NULL_INDEX"; cases "empty_head s = NULL_INDEX")
       (simp_all add: give_back_def is_slot_empty_def Let_def in_range_def)
  show "j < length (elem_vec s) \<Longrightarrow> next (elem_vec (snd (give_back s ind)) ! j) =
           (if j = ind then empty_head s
            else if j = ?p then ?q
            else next (elem_vec s ! j))"
    using facts nn[of j]
    by (cases "?p = NULL_INDEX"; cases "?q = NULL_INDEX"; cases "empty_head s = NULL_INDEX")
       (simp_all add: give_back_def is_slot_empty_def Let_def in_range_def)
  show "j < length (elem_vec s) \<Longrightarrow> prev (elem_vec (snd (give_back s ind)) ! j) =
           (if j = ind then NULL_INDEX
            else if j = empty_head s then ind
            else if j = ?q then ?p
            else prev (elem_vec s ! j))"
    using facts nn[of j]
    by (cases "?p = NULL_INDEX"; cases "?q = NULL_INDEX"; cases "empty_head s = NULL_INDEX")
       (simp_all add: give_back_def is_slot_empty_def Let_def in_range_def)
qed

subsection \<open>give\_back: invariant\<close>

lemma give_back_wf_lists:
  assumes w: "wf_lists s fl (xs @ ind # ys)"
  shows "wf_lists (snd (give_back s ind)) (ind # fl) (xs @ ys)"
proof -
  let ?ev = "elem_vec s"
  let ?n = "length ?ev"
  let ?ul = "xs @ ind # ys"
  let ?s' = "snd (give_back s ind)"
  let ?ev' = "elem_vec ?s'"
  let ?p = "prev (?ev ! ind)"
  let ?q = "next (?ev ! ind)"
  note F = give_back_fields[OF w]
  note M = wf_lists_mem[OF w]
  from w have n: "1 \<le> ?n" "?n \<le> vec_max_size"
    and de: "dll ?ev NULL_INDEX (empty_head s) fl"
    and du: "dll ?ev NULL_INDEX (filled_head s) ?ul"
    and dist: "distinct fl" "distinct ?ul"
    and cnt: "empty_cnt s = length fl" "filled_cnt s = length ?ul"
    by (simp_all add: wf_lists_def)
  have i: "ind < ?n" "\<not> is_empty (?ev ! ind)" using M(2)[of ind] by simp_all
  have nullu: "\<And>k. k \<in> set ?ul \<Longrightarrow> k \<noteq> NULL_INDEX"
    using dll_in_range[OF du] by blast
  have nullf: "\<And>k. k \<in> set fl \<Longrightarrow> k \<noteq> NULL_INDEX"
    using dll_in_range[OF de] by blast
  from dll_mid[OF du] have pq: "?p = last (NULL_INDEX # xs)" "?q = hd (ys @ [NULL_INDEX])"
    by simp_all
  have p: "?p \<noteq> NULL_INDEX \<Longrightarrow> ?p \<in> set xs" using pq(1) by (cases "xs = []") simp_all
  have q: "?q \<noteq> NULL_INDEX \<Longrightarrow> ?q \<in> set ys" using pq(2) by (cases ys) simp_all
  have e: "empty_head s \<noteq> NULL_INDEX \<Longrightarrow> empty_head s \<in> set fl"
    using de by (cases fl) simp_all
  have indf: "ind \<notin> set fl" using M(1)[of ind] i by simp
  have c1: "dll ?ev' NULL_INDEX (empty_head ?s') (ind # fl)"
    unfolding F(2)
  proof (rule dll_push[OF de dist(1) indf])
    show "ind < length ?ev'" using i by (simp add: F)
    show "ind \<noteq> NULL_INDEX" using nullu[of ind] by simp
    show "prev (?ev' ! ind) = NULL_INDEX" using i by (simp add: F)
    show "next (?ev' ! ind) = empty_head s" using i by (simp add: F)
    fix j assume j: "j \<in> set fl"
    then have jr: "j < ?n" and je: "is_empty (?ev ! j)" using M(1)[of j] by simp_all
    have jn: "j \<noteq> NULL_INDEX" by (rule nullf[OF j])
    have ju: "j \<notin> set ?ul" using M(2)[of j] je by simp
    have j1: "j \<noteq> ind" using ju by auto
    have j2: "j \<noteq> ?p" using p ju jn by (cases "?p = NULL_INDEX") auto
    have j3: "j \<noteq> ?q" using q ju jn by (cases "?q = NULL_INDEX") auto
    show "j < length ?ev' \<and> next (?ev' ! j) = next (?ev ! j) \<and>
        prev (?ev' ! j) = (if j = empty_head s then ind else prev (?ev ! j))"
      using jr j1 j2 j3 by (simp add: F)
  qed
  have nin: "NULL_INDEX \<notin> set ?ul" using nullu by blast
  have c2: "dll ?ev' NULL_INDEX (filled_head ?s') (xs @ ys)"
    unfolding F(3)
  proof (rule dll_unlink[OF du dist(2) nin])
    fix j assume j: "j \<in> set xs \<union> set ys"
    then have ju: "j \<in> set ?ul" by auto
    then have jr: "j < ?n" and je: "\<not> is_empty (?ev ! j)" using M(2)[of j] by simp_all
    have jn: "j \<noteq> NULL_INDEX" by (rule nullu[OF ju])
    have j1: "j \<noteq> ind" using j dist(2) by auto
    have j2: "j \<noteq> empty_head s" using e M(1)[of j] je jn by (cases "empty_head s = NULL_INDEX") auto
    show "j < length ?ev' \<and>
        next (?ev' ! j) = (if j = ?p then ?q else next (?ev ! j)) \<and>
        prev (?ev' ! j) = (if j = ?q then ?p else prev (?ev ! j))"
      using jr j1 j2 by (simp add: F)
  qed
  have c3: "set (ind # fl) = {k. k < length ?ev' \<and> is_empty (?ev' ! k)}"
  proof (rule set_eqI)
    fix k show "k \<in> set (ind # fl) \<longleftrightarrow> k \<in> {k. k < length ?ev' \<and> is_empty (?ev' ! k)}"
      using M(1)[of k] i by (auto simp add: F(6,7))
  qed
  have c4: "set (xs @ ys) = {k. k < length ?ev' \<and> \<not> is_empty (?ev' ! k)}"
  proof (rule set_eqI)
    fix k show "k \<in> set (xs @ ys) \<longleftrightarrow> k \<in> {k. k < length ?ev' \<and> \<not> is_empty (?ev' ! k)}"
      using M(2)[of k] dist(2) by (auto simp add: F(6,7))
  qed
  have tot: "length fl + length ?ul \<le> vec_max_size" by (rule size_cnt_simps(5)[OF w])
  then have "length fl + 1 < size_t_mod" using below_max_size[of "length fl + 1"] by simp
  then have c5: "empty_cnt ?s' = length (ind # fl)"
    using cnt by (simp add: F size_add_small)
  have "length ?ul < size_t_mod" by (rule size_cnt_simps(4)[OF w])
  then have c6: "filled_cnt ?s' = length (xs @ ys)"
    using cnt by (simp add: F size_sub_small)
  have c7: "distinct (ind # fl)" "distinct (xs @ ys)" using dist indf by simp_all
  have c0: "1 \<le> length ?ev'" "length ?ev' \<le> vec_max_size" using n by (simp_all add: F(6))
  show ?thesis
    unfolding wf_lists_def
    using c0 c1 c2 c3 c4 c5 c6 c7 by simp
qed

lemma remove1_mid: "distinct (xs @ i # ys) \<Longrightarrow> remove1 i (xs @ i # ys) = xs @ ys"
  by (simp add: remove1_append)

lemma give_back_used_wf:
  assumes w: "wf_lists s fl ul" and i: "ind < length (elem_vec s)" "\<not> is_empty (elem_vec s ! ind)"
  shows "fst (give_back s ind) = Inr ()"
    and "wf_lists (snd (give_back s ind)) (ind # fl) (remove1 ind ul)"
proof -
  from i have "ind \<in> set ul" using wf_lists_mem(2)[OF w, of ind] by simp
  then obtain xs ys where ul: "ul = xs @ ind # ys" by (auto dest: split_list)
  from w have "distinct ul" by (simp add: wf_lists_def)
  then have r: "remove1 ind ul = xs @ ys" unfolding ul by (rule remove1_mid)
  from w have w': "wf_lists s fl (xs @ ind # ys)" unfolding ul .
  show "fst (give_back s ind) = Inr ()" by (rule give_back_fields(1)[OF w'])
  show "wf_lists (snd (give_back s ind)) (ind # fl) (remove1 ind ul)"
    unfolding r by (rule give_back_wf_lists[OF w'])
qed

subsection \<open>initialize\<close>

declare init_loop.simps [simp del]

lemma init_loop_scalars:
  "empty_head (init_loop i n s) = empty_head s \<and>
   filled_head (init_loop i n s) = filled_head s \<and>
   empty_cnt (init_loop i n s) = empty_cnt s \<and>
   filled_cnt (init_loop i n s) = filled_cnt s \<and>
   length (elem_vec (init_loop i n s)) = length (elem_vec s)"
proof (induction i n s rule: init_loop.induct)
  case (1 i n s)
  show ?case
  proof (cases "i < n - 1")
    case True
    with 1 show ?thesis by (subst (1 2 3 4 5) init_loop.simps) simp
  next
    case False
    then show ?thesis by (subst (1 2 3 4 5) init_loop.simps) simp
  qed
qed

lemma init_loop_elems:
  "n - 1 \<le> length (elem_vec s) \<Longrightarrow>
   is_empty (elem_vec (init_loop i n s) ! j) =
     (if i \<le> j \<and> j < n - 1 then True else is_empty (elem_vec s ! j)) \<and>
   prev (elem_vec (init_loop i n s) ! j) =
     (if i \<le> j \<and> j < n - 1 then j - 1 else prev (elem_vec s ! j)) \<and>
   next (elem_vec (init_loop i n s) ! j) =
     (if i \<le> j \<and> j < n - 1 then j + 1 else next (elem_vec s ! j))"
proof (induction i n s rule: init_loop.induct)
  case (1 i n s)
  show ?case
  proof (cases "i < n - 1")
    case True
    let ?t = "set_next i (i + 1) (set_prev i (i - 1) (set_is_empty i True s))"
    have e: "init_loop i n s = init_loop (i + 1) n ?t"
      using True by (subst init_loop.simps) simp
    have "n - 1 \<le> length (elem_vec ?t)" using "1.prems" by simp
    from "1.IH"[OF True this] True "1.prems" show ?thesis
      unfolding e by auto
  next
    case False
    have e: "init_loop i n s = s" using False by (subst init_loop.simps) simp
    show ?thesis unfolding e using False by auto
  qed
qed

lemma initialize_fields:
  assumes "n = length (elem_vec s)" and "1 \<le> n" and "n < NULL_INDEX"
  shows "empty_head (initialize n s) = 0"
    and "filled_head (initialize n s) = NULL_INDEX"
    and "empty_cnt (initialize n s) = n"
    and "filled_cnt (initialize n s) = 0"
    and "length (elem_vec (initialize n s)) = n"
    and "j < n \<Longrightarrow> is_empty (elem_vec (initialize n s) ! j)"
    and "j < n \<Longrightarrow> prev (elem_vec (initialize n s) ! j) = (if j = 0 then NULL_INDEX else j - 1)"
    and "j < n \<Longrightarrow> next (elem_vec (initialize n s) ! j) = (if j = n - 1 then NULL_INDEX else j + 1)"
proof -
  note S = init_loop_scalars
  show "empty_head (initialize n s) = 0"
    by (simp add: initialize_def Let_def S)
  show "filled_head (initialize n s) = NULL_INDEX"
    by (simp add: initialize_def Let_def S)
  show "empty_cnt (initialize n s) = n"
    by (simp add: initialize_def Let_def S)
  show "filled_cnt (initialize n s) = 0"
    by (simp add: initialize_def Let_def S)
  show "length (elem_vec (initialize n s)) = n"
    using assms by (simp add: initialize_def Let_def S)
  show "j < n \<Longrightarrow> is_empty (elem_vec (initialize n s) ! j)"
    using assms by (cases "n > 1") (auto simp add: initialize_def Let_def S init_loop_elems)
  show "j < n \<Longrightarrow> prev (elem_vec (initialize n s) ! j) = (if j = 0 then NULL_INDEX else j - 1)"
    using assms by (cases "n > 1") (auto simp add: initialize_def Let_def S init_loop_elems)
  show "j < n \<Longrightarrow> next (elem_vec (initialize n s) ! j) = (if j = n - 1 then NULL_INDEX else j + 1)"
    using assms by (cases "n > 1") (auto simp add: initialize_def Let_def S init_loop_elems)
qed

lemma dll_upt:
  assumes "n \<le> length ev" and "n < NULL_INDEX"
    and "\<And>j. j < n \<Longrightarrow> prev (ev ! j) = (if j = 0 then NULL_INDEX else j - 1)"
    and "\<And>j. j < n \<Longrightarrow> next (ev ! j) = (if j = n - 1 then NULL_INDEX else j + 1)"
  shows "k \<le> n \<Longrightarrow>
         dll ev (if k = 0 then NULL_INDEX else k - 1) (if k = n then NULL_INDEX else k) [k..<n]"
proof (induction "n - k" arbitrary: k)
  case 0
  then show ?case by simp
next
  case (Suc d)
  then have kn: "k < n" by simp
  have u: "[k..<n] = k # [Suc k..<n]" using kn by (simp add: upt_conv_Cons)
  from Suc have "d = n - Suc k" "Suc k \<le> n" by simp_all
  from Suc.hyps(1)[OF this]
  have ih: "dll ev k (if Suc k = n then NULL_INDEX else Suc k) [Suc k..<n]" by simp
  have nx: "next (ev ! k) = (if Suc k = n then NULL_INDEX else Suc k)"
    using assms(4)[OF kn] kn by auto
  show ?case
    unfolding u using kn assms(1,2) assms(3)[OF kn] ih nx by simp
qed

lemma initialize_wf:
  assumes n: "n = length (elem_vec s)" "1 \<le> n" "n \<le> vec_max_size"
  shows "wf_lists (initialize n s) [0..<n] []"
proof -
  have nn: "n < NULL_INDEX" using n(3) below_max_size by blast
  note F = initialize_fields[OF n(1,2) nn]
  let ?ev' = "elem_vec (initialize n s)"
  have "dll ?ev' (if (0::nat) = 0 then NULL_INDEX else 0 - 1) (if 0 = n then NULL_INDEX else 0) [0..<n]"
    by (rule dll_upt[where n = n]) (simp_all add: F nn)
  then have c1: "dll ?ev' NULL_INDEX (empty_head (initialize n s)) [0..<n]"
    using n(2) by (simp add: F)
  have c3: "set [0..<n] = {i. i < length ?ev' \<and> is_empty (?ev' ! i)}"
    by (auto simp add: F)
  have c4: "{} = {i. i < length ?ev' \<and> \<not> is_empty (?ev' ! i)}"
    by (auto simp add: F)
  have c0: "1 \<le> length ?ev'" "length ?ev' \<le> vec_max_size" using n(2,3) by (simp_all add: F(5))
  have c2: "dll ?ev' NULL_INDEX (filled_head (initialize n s)) []" by (simp add: F(2))
  have c5: "empty_cnt (initialize n s) = length [0..<n]" by (simp add: F(3))
  have c6: "filled_cnt (initialize n s) = length ([]::nat list)" by (simp add: F(4))
  show ?thesis
    unfolding wf_lists_def using c0 c1 c2 c3 c4 c5 c6 by simp
qed

subsection \<open>The upsize loop\<close>

declare upsize_loop.simps [simp del]

lemma upsize_step_fields:
  assumes "i < length (elem_vec t)"
    and "empty_head t = NULL_INDEX \<or> empty_head t < length (elem_vec t)"
    and "empty_head t \<noteq> i"
  shows "empty_head (upsize_step i t) = i"
    and "filled_head (upsize_step i t) = filled_head t"
    and "empty_cnt (upsize_step i t) = empty_cnt t"
    and "filled_cnt (upsize_step i t) = filled_cnt t"
    and "length (elem_vec (upsize_step i t)) = length (elem_vec t)"
    and "is_empty (elem_vec (upsize_step i t) ! j) = is_empty (elem_vec t ! j)"
    and "next (elem_vec (upsize_step i t) ! j) = (if j = i then empty_head t else next (elem_vec t ! j))"
    and "j \<noteq> NULL_INDEX \<Longrightarrow> prev (elem_vec (upsize_step i t) ! j) =
          (if j = empty_head t then i else if j = i then NULL_INDEX else prev (elem_vec t ! j))"
  using assms
  by (cases "empty_head t = NULL_INDEX"; simp add: upsize_step_def Let_def)+

lemma upsize_loop_spec:
  assumes "length (elem_vec t) = N" and "N < NULL_INDEX"
    and "dll (elem_vec t) NULL_INDEX (empty_head t) L" and "distinct L"
    and "\<And>j. j \<in> set L \<Longrightarrow> j < i" and "i \<le> N"
  shows "dll (elem_vec (upsize_loop i N t)) NULL_INDEX (empty_head (upsize_loop i N t))
           (rev [i..<N] @ L) \<and>
         filled_head (upsize_loop i N t) = filled_head t \<and>
         empty_cnt (upsize_loop i N t) = empty_cnt t \<and>
         filled_cnt (upsize_loop i N t) = filled_cnt t \<and>
         length (elem_vec (upsize_loop i N t)) = N \<and>
         (\<forall>j. is_empty (elem_vec (upsize_loop i N t) ! j) = is_empty (elem_vec t ! j)) \<and>
         (\<forall>j. j < i \<longrightarrow> j \<notin> set L \<longrightarrow>
              prev (elem_vec (upsize_loop i N t) ! j) = prev (elem_vec t ! j) \<and>
              next (elem_vec (upsize_loop i N t) ! j) = next (elem_vec t ! j))"
  using assms
proof (induction i N t arbitrary: L rule: upsize_loop.induct)
  case (1 i N t)
  show ?case
  proof (cases "i < N")
    case False
    then have e: "upsize_loop i N t = t" by (subst upsize_loop.simps) simp
    have u: "rev [i..<N] @ L = L" using False by simp
    show ?thesis unfolding e u using "1.prems"(1,3) by simp
  next
    case True
    let ?u = "upsize_step i t"
    have e: "upsize_loop i N t = upsize_loop (i + 1) N ?u"
      using True by (subst upsize_loop.simps) simp
    have ir: "i < length (elem_vec t)" using True "1.prems"(1) by simp
    have ehL: "empty_head t \<noteq> NULL_INDEX \<Longrightarrow> empty_head t \<in> set L"
      using "1.prems"(3) by (cases L) simp_all
    have ehr: "empty_head t = NULL_INDEX \<or> empty_head t < length (elem_vec t)"
      using ehL "1.prems"(5)[of "empty_head t"] ir by (cases "empty_head t = NULL_INDEX") auto
    have inn: "i \<noteq> NULL_INDEX" using True "1.prems"(2) by simp
    have ehi: "empty_head t \<noteq> i"
      using ehL "1.prems"(5)[of "empty_head t"] inn by (cases "empty_head t = NULL_INDEX") auto
    note F = upsize_step_fields[OF ir ehr ehi]
    have iL: "i \<notin> set L" using "1.prems"(5)[of i] by auto
    have d: "dll (elem_vec ?u) NULL_INDEX (empty_head ?u) (i # L)"
      unfolding F(1)
    proof (rule dll_push[OF "1.prems"(3,4) iL])
      show "i < length (elem_vec ?u)" using ir by (simp add: F)
      show "i \<noteq> NULL_INDEX" by (rule inn)
      show "prev (elem_vec ?u ! i) = NULL_INDEX" using inn ehi by (simp add: F)
      show "next (elem_vec ?u ! i) = empty_head t" by (simp add: F)
      fix j assume j: "j \<in> set L"
      then have ji: "j < i" by (rule "1.prems"(5))
      then have "j \<noteq> NULL_INDEX" using True "1.prems"(2) by simp
      with ji show "j < length (elem_vec ?u) \<and> next (elem_vec ?u ! j) = next (elem_vec t ! j) \<and>
         prev (elem_vec ?u ! j) = (if j = empty_head t then i else prev (elem_vec t ! j))"
        using ir "1.prems"(2) by (simp add: F)
    qed
    have p1: "length (elem_vec ?u) = N" using "1.prems"(1) by (simp add: F)
    have p4: "distinct (i # L)" using "1.prems"(4) iL by simp
    have p5: "\<And>j. j \<in> set (i # L) \<Longrightarrow> j < i + 1"
    proof -
      fix j assume "j \<in> set (i # L)"
      then have "j = i \<or> j \<in> set L" by simp
      then show "j < i + 1" using "1.prems"(5)[of j] by auto
    qed
    have p6: "i + 1 \<le> N" using True by simp
    note IH = "1.IH"[OF True p1 "1.prems"(2) d p4 p5 p6]
    have l: "rev [i..<N] @ L = rev [i + 1..<N] @ (i # L)"
      using True by (simp add: upt_conv_Cons)
    have fr: "\<And>j. j < i \<Longrightarrow> j \<notin> set L \<Longrightarrow>
              prev (elem_vec ?u ! j) = prev (elem_vec t ! j) \<and>
              next (elem_vec ?u ! j) = next (elem_vec t ! j)"
    proof -
      fix j assume a: "j < i" "j \<notin> set L"
      then have "j \<noteq> NULL_INDEX" using True "1.prems"(2) by simp
      moreover have "j \<noteq> empty_head t" using ehL a(2) \<open>j \<noteq> NULL_INDEX\<close>
        by (cases "empty_head t = NULL_INDEX") auto
      ultimately show "prev (elem_vec ?u ! j) = prev (elem_vec t ! j) \<and>
              next (elem_vec ?u ! j) = next (elem_vec t ! j)"
        using a(1) by (simp add: F)
    qed
    show ?thesis
      unfolding e l using IH fr by (simp add: F)
  qed
qed

subsection \<open>resize to a larger size\<close>

lemma elem_eqI:
  "is_empty a = is_empty b \<Longrightarrow> prev a = prev b \<Longrightarrow> next a = next b \<Longrightarrow> (a::elem) = b"
  by (cases a, cases b) simp

lemma resize_same: "newsize = length (elem_vec s) \<Longrightarrow> resize s newsize = (Inr (), s)"
  by (simp add: resize_def)

lemma resize_too_big:
  "length (elem_vec s) < newsize \<Longrightarrow> vec_max_size < newsize \<Longrightarrow>
   resize s newsize = (Inl LengthError, s)"
  by (simp add: resize_def)

lemma resize_up:
  assumes w: "wf_lists s fl ul"
    and gt: "length (elem_vec s) < newsize" and le: "newsize \<le> vec_max_size"
  shows "fst (resize s newsize) = Inr ()"
    and "wf_lists (snd (resize s newsize)) (rev [length (elem_vec s)..<newsize] @ fl) ul"
    and "\<And>j. j < length (elem_vec s) \<Longrightarrow> \<not> is_empty (elem_vec s ! j) \<Longrightarrow>
           elem_vec (snd (resize s newsize)) ! j = elem_vec s ! j"
proof -
  let ?ev = "elem_vec s"
  let ?ss = "length ?ev"
  let ?t = "vec_resize newsize s"
  let ?u = "upsize_loop ?ss newsize ?t"
  let ?s' = "?u\<lparr>empty_cnt := size_add (empty_cnt ?u) (newsize - ?ss)\<rparr>"
  note M = wf_lists_mem[OF w]
  from w have de: "dll ?ev NULL_INDEX (empty_head s) fl"
    and du: "dll ?ev NULL_INDEX (filled_head s) ul"
    and dist: "distinct fl" "distinct ul"
    and cnt: "empty_cnt s = length fl" "filled_cnt s = length ul"
    by (simp_all add: wf_lists_def)
  have nn: "newsize < NULL_INDEX" using le below_max_size by blast
  have tn: "\<And>j. j < ?ss \<Longrightarrow> elem_vec ?t ! j = ?ev ! j"
    using gt by (simp add: vec_resize_nth)
  have tE: "\<And>j. ?ss \<le> j \<Longrightarrow> j < newsize \<Longrightarrow> elem_vec ?t ! j = Elem"
    by (simp add: vec_resize_nth)
  have g: "empty_head s = NULL_INDEX \<or> empty_head s < newsize"
    using wf_lists_heads(1)[OF w] gt by (cases "empty_head s = NULL_INDEX") auto
  have eq: "resize s newsize = (Inr (), ?s')"
    using gt le g by (auto simp add: resize_def Let_def in_range_def)
  have p1: "length (elem_vec ?t) = newsize" by simp
  have p3: "dll (elem_vec ?t) NULL_INDEX (empty_head ?t) fl"
  proof -
    have "dll (elem_vec ?t) NULL_INDEX (empty_head s) fl"
    proof (rule dll_frame[OF de])
      fix j assume "j \<in> set fl"
      then have "j < ?ss" using M(1)[of j] by simp
      then show "j < length (elem_vec ?t) \<and> prev (elem_vec ?t ! j) = prev (?ev ! j) \<and>
          next (elem_vec ?t ! j) = next (?ev ! j)"
        using gt by (simp add: tn)
    qed
    then show ?thesis by simp
  qed
  have p5: "\<And>j. j \<in> set fl \<Longrightarrow> j < ?ss" using M(1) by simp
  have p6: "?ss \<le> newsize" using gt by simp
  note L = upsize_loop_spec[OF p1 nn p3 dist(1) p5 p6]
  from L have l1: "dll (elem_vec ?u) NULL_INDEX (empty_head ?u) (rev [?ss..<newsize] @ fl)"
    and l2: "filled_head ?u = filled_head s" and l3: "empty_cnt ?u = empty_cnt s"
    and l4: "filled_cnt ?u = filled_cnt s" and l5: "length (elem_vec ?u) = newsize"
    and l6: "\<And>j. is_empty (elem_vec ?u ! j) = is_empty (elem_vec ?t ! j)"
    and l7: "\<And>j. j < ?ss \<Longrightarrow> j \<notin> set fl \<Longrightarrow>
              prev (elem_vec ?u ! j) = prev (elem_vec ?t ! j) \<and>
              next (elem_vec ?u ! j) = next (elem_vec ?t ! j)"
    by simp_all
  have em: "\<And>j. j < newsize \<Longrightarrow> is_empty (elem_vec ?u ! j) = (j < ?ss \<longrightarrow> is_empty (?ev ! j))"
  proof -
    fix j assume "j < newsize"
    then show "is_empty (elem_vec ?u ! j) = (j < ?ss \<longrightarrow> is_empty (?ev ! j))"
      unfolding l6 using tn[of j] tE[of j] by (cases "j < ?ss") (simp_all add: Elem_def)
  qed
  have used: "\<And>j. j < ?ss \<Longrightarrow> \<not> is_empty (?ev ! j) \<Longrightarrow> elem_vec ?u ! j = ?ev ! j"
  proof -
    fix j assume a: "j < ?ss" "\<not> is_empty (?ev ! j)"
    then have "j \<notin> set fl" using M(1)[of j] by simp
    from l7[OF a(1) this] l6[of j] tn[OF a(1)]
    show "elem_vec ?u ! j = ?ev ! j" by (intro elem_eqI) simp_all
  qed
  show "fst (resize s newsize) = Inr ()" unfolding eq by simp
  show "\<And>j. j < ?ss \<Longrightarrow> \<not> is_empty (?ev ! j) \<Longrightarrow>
           elem_vec (snd (resize s newsize)) ! j = ?ev ! j"
    unfolding eq using used by simp
  have c2: "dll (elem_vec ?u) NULL_INDEX (filled_head s) ul"
  proof (rule dll_frame[OF du])
    fix j assume "j \<in> set ul"
    then have a: "j < ?ss" "\<not> is_empty (?ev ! j)" using M(2)[of j] by simp_all
    from used[OF a] a(1) gt
    show "j < length (elem_vec ?u) \<and> prev (elem_vec ?u ! j) = prev (?ev ! j) \<and>
          next (elem_vec ?u ! j) = next (?ev ! j)"
      by (simp add: l5)
  qed
  have c3: "set (rev [?ss..<newsize] @ fl) = {i. i < newsize \<and> is_empty (elem_vec ?u ! i)}"
  proof (rule set_eqI)
    fix k
    show "k \<in> set (rev [?ss..<newsize] @ fl) \<longleftrightarrow> k \<in> {i. i < newsize \<and> is_empty (elem_vec ?u ! i)}"
    proof (cases "k < newsize")
      case True
      then show ?thesis using M(1)[of k] em[OF True] by auto
    next
      case False
      then show ?thesis using M(1)[of k] gt by auto
    qed
  qed
  have c4: "set ul = {i. i < newsize \<and> \<not> is_empty (elem_vec ?u ! i)}"
  proof (rule set_eqI)
    fix k
    show "k \<in> set ul \<longleftrightarrow> k \<in> {i. i < newsize \<and> \<not> is_empty (elem_vec ?u ! i)}"
    proof (cases "k < newsize")
      case True
      then show ?thesis using M(2)[of k] em[OF True] by auto
    next
      case False
      then show ?thesis using M(2)[of k] gt by auto
    qed
  qed
  have "\<And>x. x \<in> set fl \<Longrightarrow> \<not> ?ss \<le> x" using p5 by (simp add: not_le)
  then have dl: "distinct (rev [?ss..<newsize] @ fl)"
    using dist(1) by auto
  have "length fl \<le> ?ss" using wf_lists_lengths[OF w] by simp
  then have "length fl + (newsize - ?ss) \<le> newsize" using gt by simp
  then have "length fl + (newsize - ?ss) < size_t_mod"
    using le below_max_size[of "length fl + (newsize - ?ss)"] by simp
  then have c5: "size_add (empty_cnt ?u) (newsize - ?ss) = length (rev [?ss..<newsize] @ fl)"
    using cnt by (simp add: l3 size_add_small)
  have c0: "1 \<le> newsize" using gt by simp
  show "wf_lists (snd (resize s newsize)) (rev [?ss..<newsize] @ fl) ul"
    unfolding eq wf_lists_def
    using c0 le l1 c2 c3 c4 c5 dl dist(2) cnt(2) by (simp add: l2 l4 l5)
qed

subsection \<open>The backward scan and the relink step\<close>

lemma scan_back_found:
  "pos \<le> i \<Longrightarrow> \<not> is_empty (ev ! pos) \<Longrightarrow> (\<And>j. pos < j \<Longrightarrow> j \<le> i \<Longrightarrow> is_empty (ev ! j)) \<Longrightarrow>
   scan_back ev i c = (pos, c + (i - pos))"
proof (induction i arbitrary: c)
  case 0
  then show ?case by simp
next
  case (Suc i)
  show ?case
  proof (cases "pos = Suc i")
    case True
    with Suc.prems show ?thesis by simp
  next
    case False
    with Suc.prems(1) have le: "pos \<le> i" by simp
    then have e: "is_empty (ev ! Suc i)" using Suc.prems(3)[of "Suc i"] by simp
    have "scan_back ev i (c + 1) = (pos, c + 1 + (i - pos))"
      by (rule Suc.IH[OF le Suc.prems(2)]) (simp add: Suc.prems(3))
    then show ?thesis using e le by simp
  qed
qed

lemma scan_back_none:
  "(\<And>j. j \<le> i \<Longrightarrow> is_empty (ev ! j)) \<Longrightarrow> scan_back ev i c = (NULL_INDEX, c + i + 1)"
proof (induction i arbitrary: c)
  case 0
  then show ?case by simp
next
  case (Suc i)
  have "scan_back ev i (c + 1) = (NULL_INDEX, c + 1 + i + 1)"
    by (rule Suc.IH) (simp add: Suc.prems)
  then show ?case using Suc.prems[of "Suc i"] by simp
qed

lemma empties_from_step:
  "i < length ev \<Longrightarrow>
   empties_from ev i = (if is_empty (ev ! i) then i # empties_from ev (Suc i) else empties_from ev (Suc i))"
  by (simp add: empties_from_def upt_conv_Cons)

lemma empties_from_end: "length ev \<le> k \<Longrightarrow> empties_from ev k = []"
  by (simp add: empties_from_def)

lemma empties_from_set:
  "set (empties_from ev k) = {j. k \<le> j \<and> j < length ev \<and> is_empty (ev ! j)}"
  by (auto simp add: empties_from_def)

lemma empties_from_distinct: "distinct (empties_from ev k)"
  by (simp add: empties_from_def)

lemma empties_from_cong:
  "length ev' = length ev \<Longrightarrow> (\<And>j. j < length ev \<Longrightarrow> is_empty (ev' ! j) = is_empty (ev ! j)) \<Longrightarrow>
   empties_from ev' k = empties_from ev k"
  unfolding empties_from_def by (rule filter_cong) simp_all

lemma relink_step_used:
  "\<not> is_empty (elem_vec t ! i) \<Longrightarrow> relink_step i t = t"
  by (simp add: relink_step_def)

lemma relink_step_fields:
  assumes "i < length (elem_vec t)" and "is_empty (elem_vec t ! i)"
    and "empty_head t = NULL_INDEX \<or> empty_head t < length (elem_vec t)"
    and "empty_head t \<noteq> i"
  shows "empty_head (relink_step i t) = i"
    and "filled_head (relink_step i t) = filled_head t"
    and "empty_cnt (relink_step i t) = size_add (empty_cnt t) 1"
    and "filled_cnt (relink_step i t) = filled_cnt t"
    and "length (elem_vec (relink_step i t)) = length (elem_vec t)"
    and "is_empty (elem_vec (relink_step i t) ! j) = is_empty (elem_vec t ! j)"
    and "next (elem_vec (relink_step i t) ! j) = (if j = i then empty_head t else next (elem_vec t ! j))"
    and "j \<noteq> NULL_INDEX \<Longrightarrow> prev (elem_vec (relink_step i t) ! j) =
          (if j = empty_head t then i else if j = i then NULL_INDEX else prev (elem_vec t ! j))"
  using assms
  by (cases "empty_head t = NULL_INDEX"; simp add: relink_step_def Let_def)+

subsection \<open>The relink loop\<close>

lemma relink_step_spec:
  assumes len: "length (elem_vec t) = N" and le: "N \<le> vec_max_size" and i: "i < N"
    and d: "dll (elem_vec t) NULL_INDEX (empty_head t) (empties_from (elem_vec t) (Suc i))"
    and c: "empty_cnt t = length (empties_from (elem_vec t) (Suc i))"
  shows "dll (elem_vec (relink_step i t)) NULL_INDEX (empty_head (relink_step i t))
           (empties_from (elem_vec t) i) \<and>
         empty_cnt (relink_step i t) = length (empties_from (elem_vec t) i) \<and>
         filled_head (relink_step i t) = filled_head t \<and>
         filled_cnt (relink_step i t) = filled_cnt t \<and>
         length (elem_vec (relink_step i t)) = N \<and>
         (\<forall>j. is_empty (elem_vec (relink_step i t) ! j) = is_empty (elem_vec t ! j)) \<and>
         (\<forall>j. j < N \<longrightarrow> \<not> is_empty (elem_vec t ! j) \<longrightarrow>
              prev (elem_vec (relink_step i t) ! j) = prev (elem_vec t ! j) \<and>
              next (elem_vec (relink_step i t) ! j) = next (elem_vec t ! j))"
proof (cases "is_empty (elem_vec t ! i)")
  case False
  have e: "relink_step i t = t" by (rule relink_step_used[OF False])
  have "empties_from (elem_vec t) i = empties_from (elem_vec t) (Suc i)"
    using False i len by (simp add: empties_from_step)
  then show ?thesis unfolding e using d c len by simp
next
  case True
  let ?ev = "elem_vec t"
  let ?L = "empties_from ?ev (Suc i)"
  let ?u = "relink_step i t"
  have ir: "i < length ?ev" using i len by simp
  have st: "empties_from ?ev i = i # ?L" using True ir by (simp add: empties_from_step)
  have nn: "\<And>k. k < N \<Longrightarrow> k \<noteq> NULL_INDEX" using le below_max_size by (metis le_trans less_imp_le_nat)
  have Lmem: "\<And>k. k \<in> set ?L \<Longrightarrow> i < k \<and> k < N \<and> is_empty (?ev ! k)"
    using len by (auto simp add: empties_from_set)
  have ehL: "empty_head t \<noteq> NULL_INDEX \<Longrightarrow> empty_head t \<in> set ?L"
    using d by (cases ?L) simp_all
  have ehr: "empty_head t = NULL_INDEX \<or> empty_head t < length ?ev"
    using ehL Lmem[of "empty_head t"] len by (cases "empty_head t = NULL_INDEX") auto
  have ehi: "empty_head t \<noteq> i"
    using ehL Lmem[of "empty_head t"] nn[OF i] by (cases "empty_head t = NULL_INDEX") auto
  note F = relink_step_fields[OF ir True ehr ehi]
  have iL: "i \<notin> set ?L" using Lmem[of i] by auto
  have d1: "dll (elem_vec ?u) NULL_INDEX (empty_head ?u) (i # ?L)"
    unfolding F(1)
  proof (rule dll_push[OF d empties_from_distinct iL])
    show "i < length (elem_vec ?u)" using ir by (simp add: F)
    show "i \<noteq> NULL_INDEX" by (rule nn[OF i])
    show "prev (elem_vec ?u ! i) = NULL_INDEX" using nn[OF i] ehi by (simp add: F)
    show "next (elem_vec ?u ! i) = empty_head t" by (simp add: F)
    fix j assume j: "j \<in> set ?L"
    from Lmem[OF j] have ji: "i < j" and jN: "j < N" by simp_all
    from nn[OF jN] ji jN len
    show "j < length (elem_vec ?u) \<and> next (elem_vec ?u ! j) = next (?ev ! j) \<and>
         prev (elem_vec ?u ! j) = (if j = empty_head t then i else prev (?ev ! j))"
      by (simp add: F)
  qed
  have "set ?L \<subseteq> {j. j < N} - {i}" using Lmem by auto
  then have "card (set ?L) \<le> card ({j. j < N} - {i})" by (intro card_mono) auto
  also have "\<dots> = N - 1" using i by simp
  finally have "length ?L \<le> N - 1"
    using distinct_card[OF empties_from_distinct, of ?ev "Suc i"] by simp
  then have "length ?L + 1 \<le> vec_max_size" using i le by simp
  then have "length ?L + 1 < size_t_mod" using below_max_size by blast
  then have c1: "empty_cnt ?u = length (i # ?L)" using c by (simp add: F size_add_small)
  have fr: "\<And>j. j < N \<Longrightarrow> \<not> is_empty (?ev ! j) \<Longrightarrow>
              prev (elem_vec ?u ! j) = prev (?ev ! j) \<and> next (elem_vec ?u ! j) = next (?ev ! j)"
  proof -
    fix j assume a: "j < N" "\<not> is_empty (?ev ! j)"
    have "j \<noteq> i" using a(2) True by auto
    moreover have "j \<noteq> empty_head t"
      using ehL Lmem[of "empty_head t"] a(2) nn[OF a(1)] by (cases "empty_head t = NULL_INDEX") auto
    ultimately show "prev (elem_vec ?u ! j) = prev (?ev ! j) \<and> next (elem_vec ?u ! j) = next (?ev ! j)"
      using nn[OF a(1)] by (simp add: F)
  qed
  show ?thesis
    unfolding st using d1 c1 fr len by (simp add: F)
qed

lemma relink_loop_spec:
  assumes "length (elem_vec t) = N" and "N \<le> vec_max_size" and "i < N"
    and "dll (elem_vec t) NULL_INDEX (empty_head t) (empties_from (elem_vec t) (Suc i))"
    and "empty_cnt t = length (empties_from (elem_vec t) (Suc i))"
  shows "dll (elem_vec (relink_loop i t)) NULL_INDEX (empty_head (relink_loop i t))
           (empties_from (elem_vec t) 0) \<and>
         empty_cnt (relink_loop i t) = length (empties_from (elem_vec t) 0) \<and>
         filled_head (relink_loop i t) = filled_head t \<and>
         filled_cnt (relink_loop i t) = filled_cnt t \<and>
         length (elem_vec (relink_loop i t)) = N \<and>
         (\<forall>j. is_empty (elem_vec (relink_loop i t) ! j) = is_empty (elem_vec t ! j)) \<and>
         (\<forall>j. j < N \<longrightarrow> \<not> is_empty (elem_vec t ! j) \<longrightarrow>
              prev (elem_vec (relink_loop i t) ! j) = prev (elem_vec t ! j) \<and>
              next (elem_vec (relink_loop i t) ! j) = next (elem_vec t ! j))"
  using assms
proof (induction i arbitrary: t)
  case 0
  from relink_step_spec[OF "0.prems"] show ?case by simp
next
  case (Suc i)
  let ?u = "relink_step (Suc i) t"
  note S = relink_step_spec[OF Suc.prems]
  from S have len: "length (elem_vec ?u) = N"
    and em: "\<And>j. is_empty (elem_vec ?u ! j) = is_empty (elem_vec t ! j)" by simp_all
  have cg: "\<And>k. empties_from (elem_vec ?u) k = empties_from (elem_vec t) k"
    by (rule empties_from_cong) (simp_all add: len Suc.prems(1) em)
  have i: "i < N" using Suc.prems(3) by simp
  have d: "dll (elem_vec ?u) NULL_INDEX (empty_head ?u) (empties_from (elem_vec ?u) (Suc i))"
    unfolding cg using S by simp
  have c: "empty_cnt ?u = length (empties_from (elem_vec ?u) (Suc i))"
    unfolding cg using S by simp
  note IH = Suc.IH[OF len Suc.prems(2) i d c]
  show ?case
    using IH S unfolding cg by simp
qed

subsection \<open>resize to a smaller size: equations\<close>

lemma highest_ex:
  "\<exists>j<(n::nat). P j \<Longrightarrow> \<exists>pos<n. P pos \<and> (\<forall>j. pos < j \<and> j < n \<longrightarrow> \<not> P j)"
proof (induction n)
  case 0
  then show ?case by simp
next
  case (Suc n)
  show ?case
  proof (cases "P n")
    case True
    then show ?thesis by (intro exI[of _ n]) auto
  next
    case False
    with Suc.prems have "\<exists>j<n. P j" by (metis less_Suc_eq)
    from Suc.IH[OF this] obtain pos where "pos < n" "P pos" "\<forall>j. pos < j \<and> j < n \<longrightarrow> \<not> P j"
      by blast
    with False show ?thesis by (intro exI[of _ pos]) (auto simp: less_Suc_eq)
  qed
qed

lemma resize_down_all_free:
  assumes "newsize < length (elem_vec s)" and "length (elem_vec s) \<le> vec_max_size"
    and "\<And>j. j < length (elem_vec s) \<Longrightarrow> is_empty (elem_vec s ! j)"
  shows "resize s newsize =
           (Inr (), initialize (max newsize 1) (vec_resize (max newsize 1) s))"
proof -
  let ?ss = "length (elem_vec s)"
  have "scan_back (elem_vec s) (?ss - 1) 0 = (NULL_INDEX, 0 + (?ss - 1) + 1)"
    by (rule scan_back_none) (use assms in simp)
  then have sc: "scan_back (elem_vec s) (?ss - Suc 0) 0 = (NULL_INDEX, ?ss)" using assms(1) by simp
  have m: "(if newsize > 0 then newsize else 1) = max newsize 1" by (simp add: max_def)
  show ?thesis
    using assms(1) by (simp add: resize_def Let_def sc m)
qed

lemma resize_down_used:
  assumes "newsize < length (elem_vec s)" and "length (elem_vec s) \<le> vec_max_size"
    and "pos < length (elem_vec s)" and "\<not> is_empty (elem_vec s ! pos)"
    and "\<And>j. pos < j \<Longrightarrow> j < length (elem_vec s) \<Longrightarrow> is_empty (elem_vec s ! j)"
  shows "resize s newsize =
     (if pos = length (elem_vec s) - 1 \<or>
         size_sub (empty_cnt s) (length (elem_vec s) - 1 - pos) < 4
      then (Inr (), s)
      else (Inr (), relink_loop (max (max newsize 1) (pos + 1) - 1)
              ((vec_resize (max (max newsize 1) (pos + 1)) s)
                 \<lparr>empty_head := NULL_INDEX, empty_cnt := 0\<rparr>)))"
proof -
  let ?ss = "length (elem_vec s)"
  have "scan_back (elem_vec s) (?ss - 1) 0 = (pos, 0 + (?ss - 1 - pos))"
    by (rule scan_back_found) (use assms in simp_all)
  then have sc: "scan_back (elem_vec s) (?ss - Suc 0) 0 = (pos, ?ss - Suc 0 - pos)" by simp
  have pn: "pos \<noteq> NULL_INDEX" using assms(2,3) below_max_size[of pos] by simp
  have m: "(if newsize > 0 then newsize else 1) = max newsize 1" by (simp add: max_def)
  have m2: "max newsize 1 > pos + 1 \<Longrightarrow> max (max newsize 1) (pos + 1) = max newsize 1"
    "\<not> max newsize 1 > pos + 1 \<Longrightarrow> max (max newsize 1) (pos + 1) = pos + 1"
    by simp_all
  show ?thesis
    using assms(1) pn
    by (cases "max newsize 1 > pos + 1") (simp_all add: resize_def Let_def sc m)
qed

subsection \<open>resize to a smaller size: invariant\<close>

lemma resize_down_free_wf:
  assumes "newsize < length (elem_vec s)" and "length (elem_vec s) \<le> vec_max_size"
  shows "wf_lists (initialize (max newsize 1) (vec_resize (max newsize 1) s))
           [0..<max newsize 1] []"
  by (rule initialize_wf) (use assms in simp_all)

lemma resize_down_shrink:
  assumes w: "wf_lists s fl ul"
    and lt: "newsize < length (elem_vec s)"
    and pos: "pos < length (elem_vec s)" "\<not> is_empty (elem_vec s ! pos)"
    and tr: "\<And>j. pos < j \<Longrightarrow> j < length (elem_vec s) \<Longrightarrow> is_empty (elem_vec s ! j)"
    and m: "m = max (max newsize 1) (pos + 1)"
    and s': "s' = relink_loop (m - 1) ((vec_resize m s)\<lparr>empty_head := NULL_INDEX, empty_cnt := 0\<rparr>)"
  shows "wf_lists s' (filter (\<lambda>j. is_empty (elem_vec s ! j)) [0..<m]) ul"
    and "length (elem_vec s') = m"
    and "\<And>j. j < length (elem_vec s) \<Longrightarrow> \<not> is_empty (elem_vec s ! j) \<Longrightarrow>
           j < m \<and> elem_vec s' ! j = elem_vec s ! j"
proof -
  let ?ev = "elem_vec s"
  let ?ss = "length ?ev"
  let ?t = "(vec_resize m s)\<lparr>empty_head := NULL_INDEX, empty_cnt := 0\<rparr>"
  note M = wf_lists_mem[OF w]
  from w have le: "?ss \<le> vec_max_size"
    and du: "dll ?ev NULL_INDEX (filled_head s) ul"
    and dist: "distinct ul"
    and cnt: "filled_cnt s = length ul"
    by (simp_all add: wf_lists_def)
  have m1: "1 \<le> m" "m \<le> ?ss" "pos < m" using m lt pos(1) by auto
  have mle: "m \<le> vec_max_size" using m1(2) le by simp
  have tl: "length (elem_vec ?t) = m" by simp
  have tn0: "\<And>j. j < m \<Longrightarrow> elem_vec (vec_resize m s) ! j = ?ev ! j"
    using m1(2) by (simp add: vec_resize_nth)
  have tn: "\<And>j. j < m \<Longrightarrow> elem_vec ?t ! j = ?ev ! j"
    using tn0 by simp
  have "empties_from (elem_vec ?t) 0 = filter (\<lambda>j. is_empty (?ev ! j)) [0..<m]"
    unfolding empties_from_def tl by (rule filter_cong) (simp_all add: tn0)
  then have ef: "empties_from (elem_vec (vec_resize m s)) 0 = filter (\<lambda>j. is_empty (?ev ! j)) [0..<m]"
    by simp
  have i: "m - 1 < m" using m1(1) by simp
  have e0: "empties_from (elem_vec ?t) (Suc (m - 1)) = []"
    by (rule empties_from_end) (simp add: tl)
  have d0: "dll (elem_vec ?t) NULL_INDEX (empty_head ?t) (empties_from (elem_vec ?t) (Suc (m - 1)))"
    unfolding e0 by simp
  have c0: "empty_cnt ?t = length (empties_from (elem_vec ?t) (Suc (m - 1)))"
    unfolding e0 by simp
  note R = relink_loop_spec[OF tl mle i d0 c0, folded s']
  from R have r1: "dll (elem_vec s') NULL_INDEX (empty_head s') (empties_from (elem_vec ?t) 0)"
    and r2: "empty_cnt s' = length (empties_from (elem_vec ?t) 0)"
    and r3: "filled_head s' = filled_head s" and r4: "filled_cnt s' = filled_cnt s"
    and r5: "length (elem_vec s') = m"
    and r6: "\<And>j. is_empty (elem_vec s' ! j) = is_empty (elem_vec ?t ! j)"
    and r7: "\<And>j. j < m \<Longrightarrow> \<not> is_empty (elem_vec ?t ! j) \<Longrightarrow>
              prev (elem_vec s' ! j) = prev (elem_vec ?t ! j) \<and>
              next (elem_vec s' ! j) = next (elem_vec ?t ! j)"
    by simp_all
  show "length (elem_vec s') = m" by (rule r5)
  have used: "\<And>j. j < ?ss \<Longrightarrow> \<not> is_empty (?ev ! j) \<Longrightarrow> j < m \<and> elem_vec s' ! j = ?ev ! j"
  proof -
    fix j assume a: "j < ?ss" "\<not> is_empty (?ev ! j)"
    have "\<not> pos < j" using tr[of j] a by auto
    then have jm: "j < m" using m1(3) by simp
    have ne: "\<not> is_empty (elem_vec ?t ! j)" using a(2) tn[OF jm] by simp
    from r7[OF jm ne] r6[of j] tn[OF jm]
    have "elem_vec s' ! j = ?ev ! j" by (intro elem_eqI) simp_all
    with jm show "j < m \<and> elem_vec s' ! j = ?ev ! j" by simp
  qed
  then show "\<And>j. j < ?ss \<Longrightarrow> \<not> is_empty (?ev ! j) \<Longrightarrow> j < m \<and> elem_vec s' ! j = ?ev ! j" .
  have em: "\<And>j. j < m \<Longrightarrow> is_empty (elem_vec s' ! j) = is_empty (?ev ! j)"
    using r6 tn by simp
  have c2: "dll (elem_vec s') NULL_INDEX (filled_head s') ul"
    unfolding r3
  proof (rule dll_frame[OF du])
    fix j assume "j \<in> set ul"
    then have a: "j < ?ss" "\<not> is_empty (?ev ! j)" using M(2)[of j] by simp_all
    from used[OF a]
    show "j < length (elem_vec s') \<and> prev (elem_vec s' ! j) = prev (?ev ! j) \<and>
          next (elem_vec s' ! j) = next (?ev ! j)"
      by (simp add: r5)
  qed
  have c3: "set (filter (\<lambda>j. is_empty (?ev ! j)) [0..<m]) = {i. i < m \<and> is_empty (elem_vec s' ! i)}"
    using em by auto
  have c4: "set ul = {i. i < m \<and> \<not> is_empty (elem_vec s' ! i)}"
  proof (rule set_eqI)
    fix k
    show "k \<in> set ul \<longleftrightarrow> k \<in> {i. i < m \<and> \<not> is_empty (elem_vec s' ! i)}"
    proof (cases "k < m")
      case True
      then show ?thesis using M(2)[of k] em[OF True] m1(2) by auto
    next
      case False
      then have "\<not> (k < ?ss \<and> \<not> is_empty (?ev ! k))" using used[of k] by blast
      then show ?thesis using M(2)[of k] False by auto
    qed
  qed
  show "wf_lists s' (filter (\<lambda>j. is_empty (?ev ! j)) [0..<m]) ul"
    unfolding wf_lists_def
    using m1(1) mle r1 c2 c3 c4 r2 dist cnt by (simp add: r4 r5 ef)
qed

subsection \<open>Every reachable state is well formed\<close>

lemma wfI: "wf_lists s fl ul \<Longrightarrow> wf_slab s"
  using wf_iff by blast

lemma acquire_wf:
  assumes "wf_slab s"
  shows "wf_slab (snd (acquire s))" and "fst (acquire s) \<noteq> Inl Undefined"
proof -
  from assms obtain fl ul where w: "wf_lists s fl ul" using wf_iff by blast
  have "wf_slab (snd (acquire s)) \<and> fst (acquire s) \<noteq> Inl Undefined"
  proof (cases fl)
    case (Cons x r)
    with w have w': "wf_lists s (x # r) ul" by simp
    from acquire_nonempty_wf[OF w'] acquire_nonempty_fields(1)[OF w']
    show ?thesis by (auto intro: wfI)
  next
    case Nil
    with w have w': "wf_lists s [] ul" by simp
    show ?thesis
    proof (cases "length (elem_vec s) < vec_max_size")
      case True
      from acquire_grow_wf[OF w' True] acquire_grow_fields(1)[OF w' True]
      show ?thesis by (auto intro: wfI)
    next
      case False
      from acquire_full[OF w' False] assms show ?thesis by simp
    qed
  qed
  then show "wf_slab (snd (acquire s))" and "fst (acquire s) \<noteq> Inl Undefined" by simp_all
qed

lemma give_back_wf:
  assumes "wf_slab s"
  shows "wf_slab (snd (give_back s ind))" and "fst (give_back s ind) \<noteq> Inl Undefined"
proof -
  from assms obtain fl ul where w: "wf_lists s fl ul" using wf_iff by blast
  have "wf_slab (snd (give_back s ind)) \<and> fst (give_back s ind) \<noteq> Inl Undefined"
  proof (cases "ind < length (elem_vec s)")
    case False
    from give_back_out_of_range[OF False] assms show ?thesis by simp
  next
    case True
    show ?thesis
    proof (cases "is_empty (elem_vec s ! ind)")
      case e: True
      from give_back_double[OF True e] assms show ?thesis by simp
    next
      case e: False
      from give_back_used_wf[OF w True e] show ?thesis by (auto intro: wfI)
    qed
  qed
  then show "wf_slab (snd (give_back s ind))" and "fst (give_back s ind) \<noteq> Inl Undefined"
    by simp_all
qed

lemma wf_size: "wf_slab s \<Longrightarrow> 1 \<le> length (elem_vec s) \<and> length (elem_vec s) \<le> vec_max_size"
  by (simp add: wf_slab_def wf_lists_def)

lemma clear_eq: "wf_slab s \<Longrightarrow> clear s = (Inr (), initialize (length (elem_vec s)) s)"
  using wf_size[of s] by (auto simp add: clear_def)

lemma clear_wf_lists:
  "wf_slab s \<Longrightarrow> wf_lists (snd (clear s)) [0..<length (elem_vec s)] []"
  using wf_size[of s] by (simp add: clear_eq initialize_wf)

lemma resize_wf:
  assumes "wf_slab s"
  shows "wf_slab (snd (resize s newsize))" and "fst (resize s newsize) \<noteq> Inl Undefined"
proof -
  let ?ev = "elem_vec s"
  let ?ss = "length ?ev"
  from assms obtain fl ul where w: "wf_lists s fl ul" using wf_iff by blast
  from wf_size[OF assms] have le: "?ss \<le> vec_max_size" by simp
  have "wf_slab (snd (resize s newsize)) \<and> fst (resize s newsize) \<noteq> Inl Undefined"
  proof (cases "newsize = ?ss")
    case True
    from resize_same[OF True] assms show ?thesis by simp
  next
    case ne: False
    show ?thesis
    proof (cases "?ss < newsize")
      case gt: True
      show ?thesis
      proof (cases "newsize \<le> vec_max_size")
        case True
        from resize_up(1,2)[OF w gt True] show ?thesis by (auto intro: wfI)
      next
        case False
        then have "vec_max_size < newsize" by simp
        from resize_too_big[OF gt this] assms show ?thesis by simp
      qed
    next
      case False
      with ne have lt: "newsize < ?ss" by simp
      show ?thesis
      proof (cases "\<exists>j<?ss. \<not> is_empty (?ev ! j)")
        case False
        then have af: "\<And>j. j < ?ss \<Longrightarrow> is_empty (?ev ! j)" by blast
        from resize_down_all_free[OF lt le af] resize_down_free_wf[OF lt le]
        show ?thesis by (auto intro: wfI)
      next
        case True
        from highest_ex[OF True] obtain pos where pos: "pos < ?ss" "\<not> is_empty (?ev ! pos)"
          and tr: "\<And>j. pos < j \<Longrightarrow> j < ?ss \<Longrightarrow> is_empty (?ev ! j)" by blast
        note E = resize_down_used[OF lt le pos tr]
        show ?thesis
        proof (cases "pos = ?ss - 1 \<or> size_sub (empty_cnt s) (?ss - 1 - pos) < 4")
          case True
          with E assms show ?thesis by simp
        next
          case False
          with E have e: "resize s newsize = (Inr (), relink_loop (max (max newsize 1) (pos + 1) - 1)
              ((vec_resize (max (max newsize 1) (pos + 1)) s)
                 \<lparr>empty_head := NULL_INDEX, empty_cnt := 0\<rparr>))" by simp
          from resize_down_shrink(1)[OF w lt pos tr refl refl]
          show ?thesis unfolding e by (auto intro: wfI)
        qed
      qed
    qed
  qed
  then show "wf_slab (snd (resize s newsize))" and "fst (resize s newsize) \<noteq> Inl Undefined"
    by simp_all
qed

lemma SlabManager_eq:
  "max n 1 \<le> vec_max_size \<Longrightarrow>
   SlabManager n = Inr (initialize (max n 1)
      \<lparr>empty_head = 0, filled_head = 0, empty_cnt = 0, filled_cnt = 0,
       elem_vec = replicate (max n 1) Elem\<rparr>)"
proof -
  assume a: "max n 1 \<le> vec_max_size"
  have m: "(if n > 0 then n else 1) = max n 1" by (simp add: max_def)
  from a have b: "\<not> vec_max_size < max n 1" by (simp only: not_less)
  show ?thesis unfolding SlabManager_def m Let_def by (simp only: b if_False)
qed

lemma SlabManager_fail:
  "\<not> max n 1 \<le> vec_max_size \<Longrightarrow> SlabManager n = Inl LengthError"
proof -
  assume a: "\<not> max n 1 \<le> vec_max_size"
  have m: "(if n > 0 then n else 1) = max n 1" by (simp add: max_def)
  from a have b: "vec_max_size < max n 1" by (simp only: not_le)
  show ?thesis unfolding SlabManager_def m Let_def by (simp only: b if_True)
qed

lemma SlabManager_wf_lists:
  assumes "SlabManager n = Inr s"
  shows "wf_lists s [0..<max n 1] []"
proof (cases "max n 1 \<le> vec_max_size")
  case True
  let ?s0 = "\<lparr>empty_head = 0, filled_head = 0, empty_cnt = 0, filled_cnt = 0,
       elem_vec = replicate (max n 1) Elem\<rparr>"
  from SlabManager_eq[OF True] assms have s: "s = initialize (max n 1) ?s0" by simp
  show ?thesis unfolding s by (rule initialize_wf) (use True in simp_all)
next
  case False
  from SlabManager_fail[OF False] assms show ?thesis by simp
qed

lemma SlabManager_default_wf_lists: "wf_lists SlabManager_default [0..<1] []"
proof -
  have "(1::nat) \<le> vec_max_size" by (simp add: vec_max_size_def)
  then show ?thesis unfolding SlabManager_default_def by (intro initialize_wf) simp_all
qed

lemma reachable_wf: "reachable s \<Longrightarrow> wf_slab s"
proof (induction rule: reachable.induct)
  case r_default
  show ?case by (rule wfI[OF SlabManager_default_wf_lists])
next
  case (r_construct n s)
  then show ?case by (auto intro: wfI SlabManager_wf_lists)
next
  case (r_acquire s)
  show ?case by (rule acquire_wf(1)[OF r_acquire.IH])
next
  case (r_give_back s ind)
  show ?case by (rule give_back_wf(1)[OF r_give_back.IH])
next
  case (r_clear s)
  show ?case by (rule wfI[OF clear_wf_lists[OF r_clear.IH]])
next
  case (r_resize s newsize)
  show ?case by (rule resize_wf(1)[OF r_resize.IH])
next
  case (r_reserve s n)
  then show ?case by (simp add: reserve_def)
next
  case (r_resize_to_min s)
  show ?case unfolding resize_to_min_def by (rule resize_wf(1)[OF r_resize_to_min.IH])
next
  case (r_shrink_to_fit s)
  then show ?case by (simp add: shrink_to_fit_def)
qed

lemma no_undefined:
  assumes "reachable s"
  shows "fst (acquire s) \<noteq> Inl Undefined"
    and "fst (give_back s ind) \<noteq> Inl Undefined"
    and "fst (clear s) \<noteq> Inl Undefined"
    and "fst (resize s newsize) \<noteq> Inl Undefined"
    and "fst (resize_to_min s) \<noteq> Inl Undefined"
    and "fst (reserve s n) \<noteq> Inl Undefined"
    and "fst (shrink_to_fit s) \<noteq> Inl Undefined"
proof -
  note w = reachable_wf[OF assms]
  show "fst (acquire s) \<noteq> Inl Undefined" by (rule acquire_wf(2)[OF w])
  show "fst (give_back s ind) \<noteq> Inl Undefined" by (rule give_back_wf(2)[OF w])
  show "fst (clear s) \<noteq> Inl Undefined" by (simp add: clear_eq[OF w])
  show "fst (resize s newsize) \<noteq> Inl Undefined" by (rule resize_wf(2)[OF w])
  show "fst (resize_to_min s) \<noteq> Inl Undefined"
    unfolding resize_to_min_def by (rule resize_wf(2)[OF w])
  show "fst (reserve s n) \<noteq> Inl Undefined" by (simp add: reserve_def)
  show "fst (shrink_to_fit s) \<noteq> Inl Undefined" by (simp add: shrink_to_fit_def)
qed

subsection \<open>Evaluating the example states\<close>

lemma small_NULL:
  "n < 1000 \<Longrightarrow> (n = NULL_INDEX) = False"
  "n < 1000 \<Longrightarrow> (NULL_INDEX = n) = False"
  "n < 1000 \<Longrightarrow> (NULL_INDEX < n) = False"
  "n < 1000 \<Longrightarrow> (n < NULL_INDEX) = True"
  by (simp_all add: NULL_INDEX_def size_t_mod_def)

lemma small_max_size:
  "n < 1000 \<Longrightarrow> (vec_max_size < n) = False"
  "n < 1000 \<Longrightarrow> (n < vec_max_size) = True"
  "n < 1000 \<Longrightarrow> (n \<le> vec_max_size) = True"
  by (simp_all add: vec_max_size_def)

lemma small_size_add: "a + b < 1000 \<Longrightarrow> size_add a b = a + b"
  by (rule size_add_small) (simp add: size_t_mod_def)

lemma small_size_sub: "b \<le> a \<Longrightarrow> a < 1000 \<Longrightarrow> size_sub a b = a - b"
  by (rule size_sub_small) (simp_all add: size_t_mod_def)

lemma replicate_numeral: "replicate (numeral k) x = x # replicate (pred_numeral k) x"
  by (simp add: numeral_eq_Suc)

lemma list_update_Cons_numeral:
  "(x # xs)[numeral k := v] = x # xs[pred_numeral k := v]"
  by (simp add: numeral_eq_Suc)

lemmas run_defs = acquire_def give_back_def resize_def is_slot_empty_def in_range_def
  set_prev_def set_next_def set_is_empty_def vec_resize_def upsize_step_def relink_step_def
  initialize_def Let_def Elem_def upsize_loop.simps init_loop.simps
  small_NULL small_max_size small_size_add small_size_sub replicate_numeral
  list_update_Cons_numeral

lemma default_val:
  "SlabManager_default = \<lparr>empty_head = 0, filled_head = NULL_INDEX, empty_cnt = 1, filled_cnt = 0,
     elem_vec = [\<lparr>is_empty = True, prev = NULL_INDEX, next = NULL_INDEX\<rparr>]\<rparr>"
  by (simp add: SlabManager_default_def run_defs)

lemma ex_six_val:
  "ex_six = \<lparr>empty_head = 5, filled_head = NULL_INDEX, empty_cnt = 6, filled_cnt = 0,
     elem_vec = [\<lparr>is_empty = True, prev = 1, next = NULL_INDEX\<rparr>,
                 \<lparr>is_empty = True, prev = 2, next = 0\<rparr>,
                 \<lparr>is_empty = True, prev = 3, next = 1\<rparr>,
                 \<lparr>is_empty = True, prev = 4, next = 2\<rparr>,
                 \<lparr>is_empty = True, prev = 5, next = 3\<rparr>,
                 \<lparr>is_empty = True, prev = NULL_INDEX, next = 4\<rparr>]\<rparr>"
  unfolding ex_six_def default_val by (simp add: run_defs)

lemma ex_full_val:
  "ex_full = \<lparr>empty_head = NULL_INDEX, filled_head = 0, empty_cnt = 0, filled_cnt = 6,
     elem_vec = [\<lparr>is_empty = False, prev = NULL_INDEX, next = 1\<rparr>,
                 \<lparr>is_empty = False, prev = 0, next = 2\<rparr>,
                 \<lparr>is_empty = False, prev = 1, next = 3\<rparr>,
                 \<lparr>is_empty = False, prev = 2, next = 4\<rparr>,
                 \<lparr>is_empty = False, prev = 3, next = 5\<rparr>,
                 \<lparr>is_empty = False, prev = 4, next = NULL_INDEX\<rparr>]\<rparr>"
  unfolding ex_full_def ex_six_val by (simp add: run_defs)

lemma ex_gap_val:
  "ex_gap = \<lparr>empty_head = 5, filled_head = 4, empty_cnt = 5, filled_cnt = 1,
     elem_vec = [\<lparr>is_empty = True, prev = 1, next = NULL_INDEX\<rparr>,
                 \<lparr>is_empty = True, prev = 2, next = 0\<rparr>,
                 \<lparr>is_empty = True, prev = 3, next = 1\<rparr>,
                 \<lparr>is_empty = True, prev = 5, next = 2\<rparr>,
                 \<lparr>is_empty = False, prev = NULL_INDEX, next = NULL_INDEX\<rparr>,
                 \<lparr>is_empty = True, prev = NULL_INDEX, next = 3\<rparr>]\<rparr>"
  unfolding ex_gap_def ex_full_val by (simp add: run_defs)

lemma ex_gap_resize:
  "resize ex_gap 1 = (Inr (), \<lparr>empty_head = 0, filled_head = 4, empty_cnt = 4, filled_cnt = 1,
     elem_vec = [\<lparr>is_empty = True, prev = NULL_INDEX, next = 1\<rparr>,
                 \<lparr>is_empty = True, prev = 0, next = 2\<rparr>,
                 \<lparr>is_empty = True, prev = 1, next = 3\<rparr>,
                 \<lparr>is_empty = True, prev = 2, next = NULL_INDEX\<rparr>,
                 \<lparr>is_empty = False, prev = NULL_INDEX, next = NULL_INDEX\<rparr>]\<rparr>)"
  unfolding ex_gap_val by (simp add: run_defs)

lemma ex_three_val:
  "ex_three = \<lparr>empty_head = NULL_INDEX, filled_head = 2, empty_cnt = 0, filled_cnt = 3,
     elem_vec = [\<lparr>is_empty = False, prev = 1, next = NULL_INDEX\<rparr>,
                 \<lparr>is_empty = False, prev = 2, next = 0\<rparr>,
                 \<lparr>is_empty = False, prev = NULL_INDEX, next = 1\<rparr>]\<rparr>"
  unfolding ex_three_def default_val by (simp add: run_defs)

lemma ex_ten_val:
  "ex_ten = \<lparr>empty_head = 9, filled_head = 2, empty_cnt = 7, filled_cnt = 3,
     elem_vec = [\<lparr>is_empty = False, prev = 1, next = NULL_INDEX\<rparr>,
                 \<lparr>is_empty = False, prev = 2, next = 0\<rparr>,
                 \<lparr>is_empty = False, prev = NULL_INDEX, next = 1\<rparr>,
                 \<lparr>is_empty = True, prev = 4, next = NULL_INDEX\<rparr>,
                 \<lparr>is_empty = True, prev = 5, next = 3\<rparr>,
                 \<lparr>is_empty = True, prev = 6, next = 4\<rparr>,
                 \<lparr>is_empty = True, prev = 7, next = 5\<rparr>,
                 \<lparr>is_empty = True, prev = 8, next = 6\<rparr>,
                 \<lparr>is_empty = True, prev = 9, next = 7\<rparr>,
                 \<lparr>is_empty = True, prev = NULL_INDEX, next = 8\<rparr>]\<rparr>"
  unfolding ex_ten_def ex_three_val by (simp add: run_defs)

lemma ex_free_val:
  "ex_free = \<lparr>empty_head = 2, filled_head = NULL_INDEX, empty_cnt = 3, filled_cnt = 0,
     elem_vec = [\<lparr>is_empty = True, prev = 1, next = NULL_INDEX\<rparr>,
                 \<lparr>is_empty = True, prev = 2, next = 0\<rparr>,
                 \<lparr>is_empty = True, prev = NULL_INDEX, next = 1\<rparr>]\<rparr>"
  unfolding ex_free_def default_val by (simp add: run_defs)

lemma ex_free_resize:
  "resize ex_free 1 = (Inr (), \<lparr>empty_head = 0, filled_head = NULL_INDEX, empty_cnt = 1,
     filled_cnt = 0,
     elem_vec = [\<lparr>is_empty = True, prev = NULL_INDEX, next = NULL_INDEX\<rparr>]\<rparr>)"
  unfolding ex_free_val by (simp add: run_defs)

lemma ex_reachable:
  "reachable ex_six" "reachable ex_full" "reachable ex_gap" "reachable ex_three" "reachable ex_ten"
  unfolding ex_six_def ex_full_def ex_gap_def ex_three_def ex_ten_def
  by (intro reachable.intros)+

lemma ex_free_reachable: "reachable ex_free"
  unfolding ex_free_def by (intro reachable.intros)

subsection \<open>The lists, the scan and the example states in the terms of the statements\<close>

lemma reachable_lists: "reachable s \<Longrightarrow> wf_lists s (free_list s) (used_list s)"
  using reachable_wf[of s] by (simp add: wf_slab_def)

lemma free_list_Nil_iff:
  assumes "wf_lists s fl ul"
  shows "fl = [] \<longleftrightarrow> empty_head s = NULL_INDEX"
proof -
  from assms have "dll (elem_vec s) NULL_INDEX (empty_head s) fl" by (simp add: wf_lists_def)
  then show ?thesis by (cases fl) auto
qed

lemma acquire_n_take:
  "wf_lists s fl ul \<Longrightarrow> n \<le> length fl \<Longrightarrow> fst (acquire_n n s) = map Inr (take n fl)"
proof (induction n arbitrary: s fl ul)
  case 0
  then show ?case by simp
next
  case (Suc n)
  then obtain x r where fl: "fl = x # r" by (cases fl) auto
  with Suc.prems have w: "wf_lists s (x # r) ul" and n: "n \<le> length r" by simp_all
  note ih = Suc.IH[OF acquire_nonempty_wf[OF w] n]
  from acquire_nonempty_fields(1)[OF w] ih show ?case
    by (simp add: fl split_beta Let_def)
qed

lemma last_filled_iff:
  "last_filled s pos \<longleftrightarrow>
     pos < length (elem_vec s) \<and> \<not> is_empty (elem_vec s ! pos) \<and>
     (\<forall>j. pos < j \<and> j < length (elem_vec s) \<longrightarrow> is_empty (elem_vec s ! j))"
  by (auto simp add: last_filled_def list_all_iff Suc_le_eq)

lemma some_filled_iff:
  "some_filled s \<longleftrightarrow> (\<exists>j<length (elem_vec s). \<not> is_empty (elem_vec s ! j))"
proof
  assume "some_filled s"
  then obtain e where "e \<in> set (elem_vec s)" "\<not> is_empty e"
    by (auto simp add: some_filled_def list_ex_iff)
  then show "\<exists>j<length (elem_vec s). \<not> is_empty (elem_vec s ! j)"
    by (auto simp add: in_set_conv_nth)
next
  assume "\<exists>j<length (elem_vec s). \<not> is_empty (elem_vec s ! j)"
  then obtain j where "j < length (elem_vec s)" "\<not> is_empty (elem_vec s ! j)" by blast
  then have "elem_vec s ! j \<in> set (elem_vec s)" "\<not> is_empty (elem_vec s ! j)" by simp_all
  then show "some_filled s" unfolding some_filled_def list_ex_iff by blast
qed

lemma last_filled_trailing:
  assumes "last_filled s pos"
  shows "trailing_free s = length (elem_vec s) - 1 - pos"
proof -
  let ?ev = "elem_vec s"
  from assms have p: "pos < length ?ev" "\<not> is_empty (?ev ! pos)"
    and t: "\<And>j. pos < j \<Longrightarrow> j < length ?ev \<Longrightarrow> is_empty (?ev ! j)"
    by (simp_all add: last_filled_iff)
  have "?ev = take pos ?ev @ ?ev ! pos # drop (Suc pos) ?ev"
    by (rule id_take_nth_drop[OF p(1)])
  then have r: "rev ?ev = rev (drop (Suc pos) ?ev) @ (?ev ! pos # rev (take pos ?ev))"
    by (metis rev.simps(2) rev_append append_Cons append_Nil append_assoc)
  have a: "\<And>x. x \<in> set (rev (drop (Suc pos) ?ev)) \<Longrightarrow> is_empty x"
  proof -
    fix x assume "x \<in> set (rev (drop (Suc pos) ?ev))"
    then have "x \<in> set (drop (Suc pos) ?ev)" by simp
    then obtain k where "k < length (drop (Suc pos) ?ev)" "x = drop (Suc pos) ?ev ! k"
      by (auto simp add: in_set_conv_nth)
    then have "x = ?ev ! (Suc pos + k)" "Suc pos + k < length ?ev" by simp_all
    with t[of "Suc pos + k"] show "is_empty x" by simp
  qed
  have "takeWhile is_empty (rev (drop (Suc pos) ?ev) @ (?ev ! pos # rev (take pos ?ev)))
          = rev (drop (Suc pos) ?ev) @ takeWhile is_empty (?ev ! pos # rev (take pos ?ev))"
    by (rule takeWhile_append2) (rule a)
  then have "takeWhile is_empty (rev ?ev) = rev (drop (Suc pos) ?ev)"
    unfolding r[symmetric] using p(2) by simp
  then show ?thesis by (simp add: trailing_free_def)
qed

lemma all_free_trailing:
  "\<not> some_filled s \<Longrightarrow> trailing_free s = length (elem_vec s)"
proof -
  assume "\<not> some_filled s"
  then have "\<And>x. x \<in> set (rev (elem_vec s)) \<Longrightarrow> is_empty x"
    by (auto simp add: some_filled_def list_ex_iff)
  then have "takeWhile is_empty (rev (elem_vec s)) = rev (elem_vec s)"
    unfolding takeWhile_eq_all_conv by blast
  then show ?thesis unfolding trailing_free_def by (simp only: length_rev)
qed

lemma last_filled_ex: "some_filled s \<Longrightarrow> \<exists>pos. last_filled s pos"
proof -
  assume "some_filled s"
  then have "\<exists>j<length (elem_vec s). \<not> is_empty (elem_vec s ! j)" by (simp add: some_filled_iff)
  from highest_ex[OF this] show ?thesis unfolding last_filled_iff by blast
qed

lemma ex_lists:
  "free_list ex_gap = [5, 3, 2, 1, 0]" "used_list ex_gap = [4]"
  "free_list ex_full = []" "used_list ex_full = [0, 1, 2, 3, 4, 5]"
  "free_list ex_ten = [9, 8, 7, 6, 5, 4, 3]" "used_list ex_ten = [2, 1, 0]"
  "free_list ex_three = []" "used_list ex_three = [2, 1, 0]"
  by (simp_all add: free_list_def used_list_def ex_gap_val ex_full_val ex_ten_val ex_three_val small_NULL)

lemma ex_sizes:
  "size_slab ex_gap = 6" "size_slab ex_full = 6" "size_slab ex_ten = 10" "size_slab ex_three = 3"
  "size_slab ex_six = 6"
  by (simp_all add: size_slab_def ex_gap_val ex_full_val ex_ten_val ex_three_val ex_six_val)

lemma ex_counts:
  "empty_count ex_gap = 5" "filled_count ex_gap = 1"
  "empty_count ex_full = 0" "filled_count ex_full = 6"
  "empty_count ex_ten = 7" "filled_count ex_ten = 3"
  "empty_count ex_three = 0" "filled_count ex_three = 3"
  by (simp_all add: empty_count_def filled_count_def ex_gap_val ex_full_val ex_ten_val ex_three_val)

subsection \<open>The three outcomes of a downsize\<close>

lemma trailing_le_empty:
  assumes w: "wf_lists s fl ul" and l: "last_filled s pos"
  shows "length (elem_vec s) - 1 - pos \<le> empty_cnt s"
proof -
  let ?ss = "length (elem_vec s)"
  from l have t: "\<And>j. pos < j \<Longrightarrow> j < ?ss \<Longrightarrow> is_empty (elem_vec s ! j)"
    by (simp add: last_filled_iff)
  have "{Suc pos..<?ss} \<subseteq> set fl"
    using wf_lists_mem(1)[OF w] t by auto
  then have "card {Suc pos..<?ss} \<le> card (set fl)" by (intro card_mono) simp_all
  also have "\<dots> \<le> length fl" by (rule card_length)
  finally show ?thesis using w by (simp add: wf_lists_def)
qed

lemma threshold_eq:
  assumes w: "wf_lists s fl ul" and l: "last_filled s pos"
  shows "size_sub (empty_cnt s) (length (elem_vec s) - 1 - pos) = empty_cnt s - trailing_free s"
proof -
  from w have "empty_cnt s = length fl" by (simp add: wf_lists_def)
  with size_cnt_simps(3)[OF w] have "empty_cnt s < size_t_mod" by simp
  with trailing_le_empty[OF w l] show ?thesis
    by (simp add: size_sub_small last_filled_trailing[OF l])
qed

lemma resize_down_keep:
  assumes w: "wf_lists s fl ul" and lt: "newsize < length (elem_vec s)"
    and l: "last_filled s pos"
    and k: "pos = length (elem_vec s) - 1 \<or> empty_cnt s - trailing_free s < 4"
  shows "resize s newsize = (Inr (), s)"
proof -
  from w have le: "length (elem_vec s) \<le> vec_max_size" by (simp add: wf_lists_def)
  from l have p: "pos < length (elem_vec s)" "\<not> is_empty (elem_vec s ! pos)"
    and t: "\<And>j. pos < j \<Longrightarrow> j < length (elem_vec s) \<Longrightarrow> is_empty (elem_vec s ! j)"
    by (simp_all add: last_filled_iff)
  from k have "pos = length (elem_vec s) - 1 \<or>
      size_sub (empty_cnt s) (length (elem_vec s) - 1 - pos) < 4"
    unfolding threshold_eq[OF w l] .
  with resize_down_used[OF lt le p t] show ?thesis by simp
qed

lemma resize_down_trim:
  assumes w: "wf_lists s fl ul" and lt: "newsize < length (elem_vec s)"
    and l: "last_filled s pos"
    and k: "pos \<noteq> length (elem_vec s) - 1" "4 \<le> empty_cnt s - trailing_free s"
    and m: "m = max (max newsize 1) (pos + 1)"
  shows "fst (resize s newsize) = Inr ()"
    and "wf_lists (snd (resize s newsize)) (filter (\<lambda>j. is_empty (elem_vec s ! j)) [0..<m]) ul"
    and "length (elem_vec (snd (resize s newsize))) = m"
    and "\<And>j. j < length (elem_vec s) \<Longrightarrow> \<not> is_empty (elem_vec s ! j) \<Longrightarrow>
           j < m \<and> elem_vec (snd (resize s newsize)) ! j = elem_vec s ! j"
    and "m < length (elem_vec s)"
proof -
  from w have le: "length (elem_vec s) \<le> vec_max_size" by (simp add: wf_lists_def)
  from l have p: "pos < length (elem_vec s)" "\<not> is_empty (elem_vec s ! pos)"
    and t: "\<And>j. pos < j \<Longrightarrow> j < length (elem_vec s) \<Longrightarrow> is_empty (elem_vec s ! j)"
    by (simp_all add: last_filled_iff)
  from k have "\<not> (pos = length (elem_vec s) - 1 \<or>
      size_sub (empty_cnt s) (length (elem_vec s) - 1 - pos) < 4)"
    unfolding threshold_eq[OF w l] by simp
  with resize_down_used[OF lt le p t]
  have e: "resize s newsize = (Inr (), relink_loop (m - 1)
              ((vec_resize m s)\<lparr>empty_head := NULL_INDEX, empty_cnt := 0\<rparr>))"
    unfolding m by simp
  then have s': "snd (resize s newsize) = relink_loop (m - 1)
              ((vec_resize m s)\<lparr>empty_head := NULL_INDEX, empty_cnt := 0\<rparr>)" by simp
  show "fst (resize s newsize) = Inr ()" using e by simp
  note R = resize_down_shrink[OF w lt p t m s']
  show "wf_lists (snd (resize s newsize)) (filter (\<lambda>j. is_empty (elem_vec s ! j)) [0..<m]) ul"
    by (rule R(1))
  show "length (elem_vec (snd (resize s newsize))) = m" by (rule R(2))
  show "\<And>j. j < length (elem_vec s) \<Longrightarrow> \<not> is_empty (elem_vec s ! j) \<Longrightarrow>
           j < m \<and> elem_vec (snd (resize s newsize)) ! j = elem_vec s ! j"
    by (rule R(3))
  show "m < length (elem_vec s)" using m lt p(1) k(1) by auto
qed

lemma resize_down_reinit:
  assumes w: "wf_lists s fl ul" and lt: "newsize < length (elem_vec s)"
    and n: "\<not> some_filled s"
  shows "resize s newsize = (Inr (), initialize (max newsize 1) (vec_resize (max newsize 1) s))"
    and "wf_lists (snd (resize s newsize)) [0..<max newsize 1] []"
    and "ul = []"
proof -
  from w have le: "length (elem_vec s) \<le> vec_max_size" by (simp add: wf_lists_def)
  from n have af: "\<And>j. j < length (elem_vec s) \<Longrightarrow> is_empty (elem_vec s ! j)"
    by (auto simp add: some_filled_iff)
  show e: "resize s newsize = (Inr (), initialize (max newsize 1) (vec_resize (max newsize 1) s))"
    by (rule resize_down_all_free[OF lt le af])
  show "wf_lists (snd (resize s newsize)) [0..<max newsize 1] []"
    unfolding e using resize_down_free_wf[OF lt le] by simp
  have "\<And>i. i \<notin> set ul" using wf_lists_mem(2)[OF w] af by blast
  then show "ul = []" by (cases ul) auto
qed

lemma last_filled_unique: "last_filled s pos \<Longrightarrow> last_filled s pos' \<Longrightarrow> pos = pos'"
  unfolding last_filled_iff by (metis linorder_neqE_nat)

lemma last_filled_some: "last_filled s pos \<Longrightarrow> some_filled s"
  unfolding last_filled_iff some_filled_iff by blast

lemma resize_down_summary:
  assumes w: "wf_lists s fl ul" and lt: "newsize < length (elem_vec s)"
  shows "\<exists>fl'. fst (resize s newsize) = Inr () \<and> wf_lists (snd (resize s newsize)) fl' ul \<and>
          (\<forall>j<length (elem_vec s). \<not> is_empty (elem_vec s ! j) \<longrightarrow>
               j < length (elem_vec (snd (resize s newsize))) \<and>
               elem_vec (snd (resize s newsize)) ! j = elem_vec s ! j)"
proof (cases "some_filled s")
  case False
  note R = resize_down_reinit[OF w lt False]
  have "\<forall>j<length (elem_vec s). is_empty (elem_vec s ! j)"
    using False by (auto simp add: some_filled_iff)
  with R(1,2) show ?thesis unfolding R(3) by (intro exI[of _ "[0..<max newsize 1]"]) simp
next
  case True
  from last_filled_ex[OF True] obtain pos where l: "last_filled s pos" by blast
  show ?thesis
  proof (cases "pos = length (elem_vec s) - 1 \<or> empty_cnt s - trailing_free s < 4")
    case k: True
    from resize_down_keep[OF w lt l k] w show ?thesis by (intro exI[of _ fl]) simp
  next
    case False
    then have k: "pos \<noteq> length (elem_vec s) - 1" "4 \<le> empty_cnt s - trailing_free s"
      by simp_all
    note R = resize_down_trim[OF w lt l k refl]
    show ?thesis
      by (intro exI[of _ "filter (\<lambda>j. is_empty (elem_vec s ! j)) [0..<max (max newsize 1) (pos + 1)]"])
         (use R in simp)
  qed
qed

subsection \<open>Free slots below the highest filled slot\<close>

lemma free_below_last_filled:
  assumes w: "wf_lists s fl ul" and l: "last_filled s pos"
    and k: "4 \<le> empty_cnt s - trailing_free s"
  shows "\<exists>j<pos. is_empty (elem_vec s ! j)"
proof -
  let ?ss = "length (elem_vec s)"
  let ?T = "{Suc pos..<?ss}"
  from l have p: "pos < ?ss" "\<not> is_empty (elem_vec s ! pos)"
    and t: "\<And>j. pos < j \<Longrightarrow> j < ?ss \<Longrightarrow> is_empty (elem_vec s ! j)"
    by (simp_all add: last_filled_iff)
  from w have d: "distinct fl" and c: "empty_cnt s = length fl" by (simp_all add: wf_lists_def)
  have sub: "?T \<subseteq> set fl" using wf_lists_mem(1)[OF w] t by auto
  have "card ?T = trailing_free s" using last_filled_trailing[OF l] by simp
  moreover have "card (set fl) = empty_cnt s" using d c by (simp add: distinct_card)
  moreover have "card (set fl - ?T) = card (set fl) - card ?T"
    by (rule card_Diff_subset) (use sub in simp_all)
  ultimately have four: "4 \<le> card (set fl - ?T)" using k by simp
  have "set fl - ?T \<noteq> {}"
  proof
    assume "set fl - ?T = {}"
    then have "card (set fl - ?T) = 0" by (simp only: card.empty)
    with four show False by linarith
  qed
  then obtain j where j: "j \<in> set fl" "j \<notin> ?T" by blast
  from j(1) have jf: "j < ?ss" "is_empty (elem_vec s ! j)"
    using wf_lists_mem(1)[OF w, of j] by simp_all
  from j(2) jf(1) have "j \<le> pos" by simp
  moreover from jf(2) p(2) have "j \<noteq> pos" by auto
  ultimately have "j < pos" by simp
  with jf(2) show ?thesis by blast
qed

lemma sorted_filter_upt: "sorted (filter P [0..<m])"
  by (rule sorted_wrt_filter) simp

section \<open>The claims\<close>

text \<open>
  Claim C1. In every state reached through the public interface (either constructor,
  then any sequence of \<^verbatim>\<open>acquire\<close>, \<^verbatim>\<open>give_back\<close>, \<^verbatim>\<open>clear\<close>, \<^verbatim>\<open>resize\<close>,
  \<^verbatim>\<open>reserve\<close>, \<^verbatim>\<open>resize_to_min\<close> and \<^verbatim>\<open>shrink_to_fit\<close> calls, failing ones included),
  the cached counts of empty and filled slots sum to the length of the slot vector.
\<close>

theorem counts_sum_to_size:
  assumes "reachable s"
  shows "empty_count s + filled_count s = size_slab s"
proof -
  from reachable_wf[OF assms] obtain fl ul where w: "wf_lists s fl ul"
    using wf_iff by blast
  from w have "empty_cnt s = length fl" "filled_cnt s = length ul"
    by (simp_all add: wf_lists_def)
  with wf_lists_lengths[OF w] show ?thesis
    by (simp add: empty_count_def filled_count_def size_slab_def)
qed

theorem counts_sum_to_size_witness:
  "reachable ex_gap \<and> empty_count ex_gap + filled_count ex_gap = size_slab ex_gap \<and>
   empty_count ex_gap = 5 \<and> filled_count ex_gap = 1 \<and> size_slab ex_gap = 6"
  using counts_sum_to_size[OF ex_reachable(3)] ex_reachable(3)
  by (simp add: ex_gap_val empty_count_def filled_count_def size_slab_def)

text \<open>
  Claim C2. In every reachable state \<^verbatim>\<open>acquire()\<close> behaves as follows, \<open>s'\<close> being the
  state after the call.
  \<^item> If the empty list is not empty (equivalently \<open>empty_head \<noteq> NULL_INDEX\<close>), the call
    returns its head, removes it from the empty list, puts it at the head of the filled
    list, decrements \<open>empty_cnt\<close>, increments \<open>filled_cnt\<close> and keeps \<^verbatim>\<open>size()\<close>.
  \<^item> If the empty list is empty and the vector can still grow, the call appends exactly
    one slot, puts it at the head of the filled list and returns the old \<^verbatim>\<open>size()\<close>.
  \<^item> Whenever the call returns an index \<open>i\<close>, \<^verbatim>\<open>is_slot_empty(i)\<close> is false afterwards.
  \<^item> The call returns an index unless the empty list is empty and the vector has
    reached \<open>vec_max_size\<close>; then it throws \<^verbatim>\<open>std::length_error\<close> and keeps the state.
\<close>

theorem acquire_spec:
  assumes "reachable s"
  shows "(let s' = snd (acquire s) in
     (free_list s \<noteq> [] \<longleftrightarrow> empty_head s \<noteq> NULL_INDEX) \<and>
     (free_list s \<noteq> [] \<longrightarrow>
        fst (acquire s) = Inr (hd (free_list s)) \<and> hd (free_list s) = empty_head s \<and>
        free_list s' = tl (free_list s) \<and>
        used_list s' = hd (free_list s) # used_list s \<and>
        empty_count s' + 1 = empty_count s \<and>
        filled_count s' = filled_count s + 1 \<and>
        size_slab s' = size_slab s) \<and>
     (free_list s = [] \<and> size_slab s < vec_max_size \<longrightarrow>
        fst (acquire s) = Inr (size_slab s) \<and>
        size_slab s' = size_slab s + 1 \<and>
        free_list s' = [] \<and>
        used_list s' = size_slab s # used_list s \<and>
        empty_count s' = empty_count s \<and>
        filled_count s' = filled_count s + 1) \<and>
     (free_list s = [] \<and> \<not> size_slab s < vec_max_size \<longrightarrow>
        acquire s = (Inl LengthError, s)) \<and>
     (\<forall>i. fst (acquire s) = Inr i \<longrightarrow> is_slot_empty s' i = Inr False))"
proof -
  let ?s' = "snd (acquire s)"
  let ?fl = "free_list s"
  let ?ul = "used_list s"
  note w = reachable_lists[OF assms]
  have a: "?fl \<noteq> [] \<longleftrightarrow> empty_head s \<noteq> NULL_INDEX"
    using free_list_Nil_iff[OF w] by simp
  have b: "?fl \<noteq> [] \<longrightarrow>
        fst (acquire s) = Inr (hd ?fl) \<and> hd ?fl = empty_head s \<and>
        free_list ?s' = tl ?fl \<and> used_list ?s' = hd ?fl # ?ul \<and>
        empty_count ?s' + 1 = empty_count s \<and> filled_count ?s' = filled_count s + 1 \<and>
        size_slab ?s' = size_slab s \<and> is_slot_empty ?s' (hd ?fl) = Inr False"
  proof
    assume "?fl \<noteq> []"
    then obtain x r where fl: "?fl = x # r" by (cases ?fl) auto
    from w have w1: "wf_lists s (x # r) ?ul" unfolding fl .
    note F = acquire_nonempty_fields[OF w1]
    note w2 = acquire_nonempty_wf[OF w1]
    from w1 have hx: "empty_head s = x" and xr: "x < length (elem_vec s)"
      and c: "empty_cnt s = length (x # r)" "filled_cnt s = length ?ul"
      by (simp_all add: wf_lists_def)
    from w2 have c': "empty_cnt ?s' = length r" "filled_cnt ?s' = length (x # ?ul)"
      by (simp_all add: wf_lists_def)
    have e: "is_slot_empty ?s' x = Inr False"
      using xr by (simp add: is_slot_empty_def F(6,7))
    show "fst (acquire s) = Inr (hd ?fl) \<and> hd ?fl = empty_head s \<and>
        free_list ?s' = tl ?fl \<and> used_list ?s' = hd ?fl # ?ul \<and>
        empty_count ?s' + 1 = empty_count s \<and> filled_count ?s' = filled_count s + 1 \<and>
        size_slab ?s' = size_slab s \<and> is_slot_empty ?s' (hd ?fl) = Inr False"
      unfolding fl
      using F(1) hx wf_lists_free_list[OF w2] wf_lists_used_list[OF w2] c c' F(6) e
      by (simp add: empty_count_def filled_count_def size_slab_def)
  qed
  have c: "?fl = [] \<and> size_slab s < vec_max_size \<longrightarrow>
        fst (acquire s) = Inr (size_slab s) \<and> size_slab ?s' = size_slab s + 1 \<and>
        free_list ?s' = [] \<and> used_list ?s' = size_slab s # ?ul \<and>
        empty_count ?s' = empty_count s \<and> filled_count ?s' = filled_count s + 1 \<and>
        is_slot_empty ?s' (size_slab s) = Inr False"
  proof
    assume h: "?fl = [] \<and> size_slab s < vec_max_size"
    then have r: "length (elem_vec s) < vec_max_size" by (simp add: size_slab_def)
    from w h have w1: "wf_lists s [] ?ul" by simp
    note F = acquire_grow_fields[OF w1 r]
    note w2 = acquire_grow_wf[OF w1 r]
    from w1 have c: "filled_cnt s = length ?ul" by (simp add: wf_lists_def)
    from w2 have c': "filled_cnt ?s' = length (length (elem_vec s) # ?ul)"
      by (simp add: wf_lists_def)
    have e: "is_slot_empty ?s' (length (elem_vec s)) = Inr False"
      by (simp add: is_slot_empty_def F(6,7))
    show "fst (acquire s) = Inr (size_slab s) \<and> size_slab ?s' = size_slab s + 1 \<and>
        free_list ?s' = [] \<and> used_list ?s' = size_slab s # ?ul \<and>
        empty_count ?s' = empty_count s \<and> filled_count ?s' = filled_count s + 1 \<and>
        is_slot_empty ?s' (size_slab s) = Inr False"
      using F(1,4,6) wf_lists_free_list[OF w2] wf_lists_used_list[OF w2] c c' e
      by (simp add: empty_count_def filled_count_def size_slab_def)
  qed
  have d: "?fl = [] \<and> \<not> size_slab s < vec_max_size \<longrightarrow> acquire s = (Inl LengthError, s)"
  proof
    assume h: "?fl = [] \<and> \<not> size_slab s < vec_max_size"
    from w h have w1: "wf_lists s [] ?ul" by simp
    from h have "\<not> length (elem_vec s) < vec_max_size" by (simp add: size_slab_def)
    from acquire_full[OF w1 this] show "acquire s = (Inl LengthError, s)" .
  qed
  have e: "\<forall>i. fst (acquire s) = Inr i \<longrightarrow> is_slot_empty ?s' i = Inr False"
  proof (intro allI impI)
    fix i assume r: "fst (acquire s) = Inr i"
    show "is_slot_empty ?s' i = Inr False"
    proof (cases "?fl = []")
      case False
      with b have "fst (acquire s) = Inr (hd ?fl)"
        and h: "is_slot_empty ?s' (hd ?fl) = Inr False" by blast+
      with r have "i = hd ?fl" by simp
      with h show ?thesis by simp
    next
      case True
      show ?thesis
      proof (cases "size_slab s < vec_max_size")
        case lt: True
        with c True have "fst (acquire s) = Inr (size_slab s)"
          and h: "is_slot_empty ?s' (size_slab s) = Inr False" by blast+
        with r have "i = size_slab s" by simp
        with h show ?thesis by simp
      next
        case False
        with d True have "acquire s = (Inl LengthError, s)" by blast
        with r show ?thesis by simp
      qed
    qed
  qed
  from a b c d e show ?thesis unfolding Let_def by blast
qed

theorem acquire_spec_witness:
  "reachable ex_gap \<and> free_list ex_gap \<noteq> [] \<and> fst (acquire ex_gap) = Inr 5 \<and>
   free_list (snd (acquire ex_gap)) = [3, 2, 1, 0] \<and>
   used_list (snd (acquire ex_gap)) = [5, 4] \<and>
   is_slot_empty (snd (acquire ex_gap)) 5 = Inr False \<and>
   reachable ex_full \<and> free_list ex_full = [] \<and> size_slab ex_full < vec_max_size \<and>
   fst (acquire ex_full) = Inr 6 \<and> size_slab (snd (acquire ex_full)) = 7 \<and>
   used_list (snd (acquire ex_full)) = [6, 0, 1, 2, 3, 4, 5] \<and>
   is_slot_empty (snd (acquire ex_full)) 6 = Inr False"
  using acquire_spec[OF ex_reachable(3)] acquire_spec[OF ex_reachable(2)] ex_reachable(2,3)
  by (simp add: Let_def ex_lists ex_sizes small_max_size)

text \<open>
  Claim C3. In a reachable state and for an index below \<^verbatim>\<open>size()\<close>:
  \<^item> if the slot is free, \<^verbatim>\<open>give_back(ind)\<close> throws \<^verbatim>\<open>std::logic_error\<close> (double release)
    and the state it leaves is the state it found: the vector, both heads and both
    counters are unchanged;
  \<^item> if the slot is filled, the call succeeds, \<^verbatim>\<open>is_slot_empty(ind)\<close> is true afterwards,
    the slot is the new head of the empty list and is gone from the filled list,
    \<open>filled_cnt\<close> is one less and \<open>empty_cnt\<close> one more, and a second
    \<^verbatim>\<open>give_back(ind)\<close> right after fails with the double-release error.
\<close>

theorem give_back_spec:
  assumes "reachable s" and "ind < size_slab s"
  shows "(is_slot_empty s ind = Inr True \<longrightarrow> give_back s ind = (Inl LogicError, s)) \<and>
         (is_slot_empty s ind = Inr False \<longrightarrow>
            (let s' = snd (give_back s ind) in
             fst (give_back s ind) = Inr () \<and>
             is_slot_empty s' ind = Inr True \<and>
             empty_head s' = ind \<and>
             free_list s' = ind # free_list s \<and>
             used_list s' = remove1 ind (used_list s) \<and>
             filled_count s' + 1 = filled_count s \<and>
             empty_count s' = empty_count s + 1 \<and>
             size_slab s' = size_slab s \<and>
             give_back s' ind = (Inl LogicError, s')))"
proof (intro conjI impI)
  assume "is_slot_empty s ind = Inr True"
  with assms(2) have "ind < length (elem_vec s)" "is_empty (elem_vec s ! ind)"
    by (simp_all add: is_slot_empty_def size_slab_def)
  then show "give_back s ind = (Inl LogicError, s)" by (rule give_back_double)
next
  let ?s' = "snd (give_back s ind)"
  let ?fl = "free_list s"
  let ?ul = "used_list s"
  assume "is_slot_empty s ind = Inr False"
  with assms(2) have i: "ind < length (elem_vec s)" "\<not> is_empty (elem_vec s ! ind)"
    by (simp_all add: is_slot_empty_def size_slab_def)
  note w = reachable_lists[OF assms(1)]
  note G = give_back_used_wf[OF w i]
  from wf_lists_mem(2)[OF w, of ind] i have m: "ind \<in> set ?ul" by simp
  from w have c: "empty_cnt s = length ?fl" "filled_cnt s = length ?ul"
    by (simp_all add: wf_lists_def)
  from G(2) have c': "empty_cnt ?s' = length (ind # ?fl)" "filled_cnt ?s' = length (remove1 ind ?ul)"
    and h: "dll (elem_vec ?s') NULL_INDEX (empty_head ?s') (ind # ?fl)"
    by (simp_all add: wf_lists_def)
  from h have eh: "empty_head ?s' = ind" by simp
  have l0: "0 < length ?ul" using m by (cases ?ul) auto
  have l1: "length (remove1 ind ?ul) = length ?ul - 1" using m by (simp add: length_remove1)
  have l2: "length ?fl + 1 + length (remove1 ind ?ul) = length (elem_vec ?s')"
    using wf_lists_lengths[OF G(2)] by simp
  have l3: "length ?fl + length ?ul = length (elem_vec s)" by (rule wf_lists_lengths[OF w])
  have len: "length (elem_vec ?s') = length (elem_vec s)"
    using l0 l2 l3 unfolding l1 by arith
  from wf_lists_mem(1)[OF G(2), of ind]
  have e: "ind < length (elem_vec ?s')" "is_empty (elem_vec ?s' ! ind)" by simp_all
  then have e1: "is_slot_empty ?s' ind = Inr True" by (simp add: is_slot_empty_def)
  have e2: "give_back ?s' ind = (Inl LogicError, ?s')" by (rule give_back_double[OF e])
  have f: "filled_count ?s' + 1 = filled_count s"
    using c(2) c'(2) l0 unfolding l1 filled_count_def by arith
  show "let s' = snd (give_back s ind) in
             fst (give_back s ind) = Inr () \<and>
             is_slot_empty s' ind = Inr True \<and>
             empty_head s' = ind \<and>
             free_list s' = ind # free_list s \<and>
             used_list s' = remove1 ind (used_list s) \<and>
             filled_count s' + 1 = filled_count s \<and>
             empty_count s' = empty_count s + 1 \<and>
             size_slab s' = size_slab s \<and>
             give_back s' ind = (Inl LogicError, s')"
    unfolding Let_def
    using G(1) e1 eh wf_lists_free_list[OF G(2)] wf_lists_used_list[OF G(2)] f c(1) c'(1) len e2
    by (simp add: empty_count_def size_slab_def)
qed

theorem give_back_spec_witness:
  "reachable ex_gap \<and> 3 < size_slab ex_gap \<and> is_slot_empty ex_gap 3 = Inr True \<and>
   give_back ex_gap 3 = (Inl LogicError, ex_gap) \<and>
   4 < size_slab ex_gap \<and> is_slot_empty ex_gap 4 = Inr False \<and>
   fst (give_back ex_gap 4) = Inr () \<and>
   is_slot_empty (snd (give_back ex_gap 4)) 4 = Inr True \<and>
   free_list (snd (give_back ex_gap 4)) = [4, 5, 3, 2, 1, 0] \<and>
   used_list (snd (give_back ex_gap 4)) = [] \<and>
   filled_count (snd (give_back ex_gap 4)) + 1 = 1 \<and>
   empty_count (snd (give_back ex_gap 4)) = 6"
proof -
  have a: "is_slot_empty ex_gap 3 = Inr True" "is_slot_empty ex_gap 4 = Inr False"
    by (simp_all add: is_slot_empty_def ex_gap_val)
  have b: "(3::nat) < size_slab ex_gap" "(4::nat) < size_slab ex_gap"
    by (simp_all add: ex_sizes)
  from give_back_spec[OF ex_reachable(3) b(1)] give_back_spec[OF ex_reachable(3) b(2)]
    a b ex_reachable(3)
  show ?thesis by (simp add: Let_def ex_lists ex_counts)
qed

text \<open>
  Claim C4. Reuse is last-in first-out: in a reachable state, for two different filled
  slots \<open>a\<close> and \<open>b\<close> below \<^verbatim>\<open>size()\<close>, \<^verbatim>\<open>give_back(a)\<close> and then \<^verbatim>\<open>give_back(b)\<close> both
  succeed and leave both slots free; the next \<^verbatim>\<open>acquire()\<close> returns \<open>b\<close> and the one
  after it returns \<open>a\<close>.
\<close>

theorem lifo_reuse:
  assumes "reachable s" and "a < size_slab s" and "b < size_slab s" and "a \<noteq> b"
    and "is_slot_empty s a = Inr False" and "is_slot_empty s b = Inr False"
  shows "(let s1 = snd (give_back s a);
              s2 = snd (give_back s1 b);
              s3 = snd (acquire s2)
          in fst (give_back s a) = Inr () \<and> fst (give_back s1 b) = Inr () \<and>
             is_slot_empty s2 a = Inr True \<and> is_slot_empty s2 b = Inr True \<and>
             fst (acquire s2) = Inr b \<and> fst (acquire s3) = Inr a)"
proof -
  let ?s1 = "snd (give_back s a)"
  let ?s2 = "snd (give_back ?s1 b)"
  let ?s3 = "snd (acquire ?s2)"
  let ?fl = "free_list s"
  let ?ul = "used_list s"
  note w = reachable_lists[OF assms(1)]
  from assms(2,5) have ia: "a < length (elem_vec s)" "\<not> is_empty (elem_vec s ! a)"
    by (simp_all add: is_slot_empty_def size_slab_def)
  from assms(3,6) have ib: "b < length (elem_vec s)" "\<not> is_empty (elem_vec s ! b)"
    by (simp_all add: is_slot_empty_def size_slab_def)
  note G1 = give_back_used_wf[OF w ia]
  from wf_lists_mem(2)[OF w, of b] ib have "b \<in> set ?ul" by simp
  with assms(4) have "b \<in> set (remove1 a ?ul)" by simp
  with wf_lists_mem(2)[OF G1(2), of b]
  have ib1: "b < length (elem_vec ?s1)" "\<not> is_empty (elem_vec ?s1 ! b)" by simp_all
  note G2 = give_back_used_wf[OF G1(2) ib1]
  from wf_lists_mem(1)[OF G2(2), of a] wf_lists_mem(1)[OF G2(2), of b]
  have e: "is_slot_empty ?s2 a = Inr True" "is_slot_empty ?s2 b = Inr True"
    by (simp_all add: is_slot_empty_def)
  note A1 = acquire_nonempty_fields(1)[OF G2(2)]
  note W3 = acquire_nonempty_wf[OF G2(2)]
  note A2 = acquire_nonempty_fields(1)[OF W3]
  show ?thesis
    unfolding Let_def using G1(1) G2(1) e A1 A2 by simp
qed

theorem lifo_reuse_witness:
  "reachable ex_ten \<and> (0::nat) < size_slab ex_ten \<and> (2::nat) < size_slab ex_ten \<and> (0::nat) \<noteq> 2 \<and>
   is_slot_empty ex_ten 0 = Inr False \<and> is_slot_empty ex_ten 2 = Inr False \<and>
   fst (acquire (snd (give_back (snd (give_back ex_ten 0)) 2))) = Inr 2 \<and>
   fst (acquire (snd (acquire (snd (give_back (snd (give_back ex_ten 0)) 2))))) = Inr 0"
proof -
  have a: "is_slot_empty ex_ten 0 = Inr False" "is_slot_empty ex_ten 2 = Inr False"
    by (simp_all add: is_slot_empty_def ex_ten_val)
  have b: "(0::nat) < size_slab ex_ten" "(2::nat) < size_slab ex_ten" "(0::nat) \<noteq> 2"
    by (simp_all add: ex_sizes)
  from lifo_reuse[OF ex_reachable(5) b a] a b ex_reachable(5)
  show ?thesis by (simp add: Let_def)
qed

text \<open>
  Claim C5. In a reachable state, \<^verbatim>\<open>resize(newsize)\<close> with \<open>newsize\<close> below \<^verbatim>\<open>size()\<close> returns
  normally and changes no filled slot: every index that was filled is still inside the
  vector, still filled, and its record (flag, \<open>prev\<close>, \<open>next\<close>) is the same; the filled
  list, its head and \<open>filled_cnt\<close> are the same. When a filled slot exists and the shrink
  is accepted (the highest filled index \<open>pos\<close> is not the last index and at least four
  free slots lie outside the trailing free region), the vector is truncated to the
  larger of \<open>newsize\<close> clamped to at least 1 and \<open>pos + 1\<close>.
\<close>

theorem downsize_keeps_filled:
  assumes "reachable s" and "newsize < size_slab s"
  shows "(let s' = snd (resize s newsize) in
     fst (resize s newsize) = Inr () \<and>
     (\<forall>j<size_slab s. is_slot_empty s j = Inr False \<longrightarrow>
          j < size_slab s' \<and> is_slot_empty s' j = Inr False \<and>
          elem_vec s' ! j = elem_vec s ! j) \<and>
     used_list s' = used_list s \<and>
     filled_head s' = filled_head s \<and>
     filled_count s' = filled_count s \<and>
     (\<forall>pos. last_filled s pos \<and> pos \<noteq> size_slab s - 1 \<and>
            4 \<le> empty_count s - trailing_free s \<longrightarrow>
        size_slab s' = max (max newsize 1) (pos + 1)))"
proof -
  let ?s' = "snd (resize s newsize)"
  let ?ul = "used_list s"
  note w = reachable_lists[OF assms(1)]
  from assms(2) have lt: "newsize < length (elem_vec s)" by (simp add: size_slab_def)
  from resize_down_summary[OF w lt] obtain fl'
    where r: "fst (resize s newsize) = Inr ()" and w': "wf_lists ?s' fl' ?ul"
      and k: "\<And>j. j < length (elem_vec s) \<Longrightarrow> \<not> is_empty (elem_vec s ! j) \<Longrightarrow>
               j < length (elem_vec ?s') \<and> elem_vec ?s' ! j = elem_vec s ! j"
    by blast
  have a: "\<forall>j<size_slab s. is_slot_empty s j = Inr False \<longrightarrow>
          j < size_slab ?s' \<and> is_slot_empty ?s' j = Inr False \<and>
          elem_vec ?s' ! j = elem_vec s ! j"
  proof (intro allI impI)
    fix j assume "j < size_slab s" "is_slot_empty s j = Inr False"
    then have j: "j < length (elem_vec s)" "\<not> is_empty (elem_vec s ! j)"
      by (simp_all add: is_slot_empty_def size_slab_def)
    from k[OF j] j(2)
    show "j < size_slab ?s' \<and> is_slot_empty ?s' j = Inr False \<and>
          elem_vec ?s' ! j = elem_vec s ! j"
      by (simp add: is_slot_empty_def size_slab_def)
  qed
  have b: "used_list ?s' = ?ul" by (rule wf_lists_used_list[OF w'])
  have c: "filled_head ?s' = filled_head s"
    using wf_lists_heads(4)[OF w'] wf_lists_heads(4)[OF w] by simp
  have d: "filled_count ?s' = filled_count s"
    using w w' by (simp add: wf_lists_def filled_count_def)
  have e: "\<forall>pos. last_filled s pos \<and> pos \<noteq> size_slab s - 1 \<and>
            4 \<le> empty_count s - trailing_free s \<longrightarrow>
        size_slab ?s' = max (max newsize 1) (pos + 1)"
  proof (intro allI impI)
    fix pos
    assume h: "last_filled s pos \<and> pos \<noteq> size_slab s - 1 \<and>
            4 \<le> empty_count s - trailing_free s"
    then have l: "last_filled s pos" and k1: "pos \<noteq> length (elem_vec s) - 1"
      and k2: "4 \<le> empty_cnt s - trailing_free s"
      by (simp_all add: size_slab_def empty_count_def)
    from resize_down_trim(3)[OF w lt l k1 k2 refl]
    show "size_slab ?s' = max (max newsize 1) (pos + 1)" by (simp add: size_slab_def)
  qed
  from r a b c d e show ?thesis unfolding Let_def by blast
qed

theorem downsize_keeps_filled_witness:
  "reachable ex_gap \<and> (1::nat) < size_slab ex_gap \<and>
   (4::nat) < size_slab ex_gap \<and> is_slot_empty ex_gap 4 = Inr False \<and>
   last_filled ex_gap 4 \<and> (4::nat) \<noteq> size_slab ex_gap - 1 \<and>
   4 \<le> empty_count ex_gap - trailing_free ex_gap \<and>
   fst (resize ex_gap 1) = Inr () \<and>
   size_slab (snd (resize ex_gap 1)) = 5 \<and>
   is_slot_empty (snd (resize ex_gap 1)) 4 = Inr False \<and>
   elem_vec (snd (resize ex_gap 1)) ! 4 = elem_vec ex_gap ! 4 \<and>
   used_list (snd (resize ex_gap 1)) = [4]"
proof -
  have a: "(1::nat) < size_slab ex_gap" "(4::nat) < size_slab ex_gap"
    "(4::nat) \<noteq> size_slab ex_gap - 1"
    by (simp_all add: ex_sizes)
  have b: "is_slot_empty ex_gap 4 = Inr False" "last_filled ex_gap 4"
    "trailing_free ex_gap = 1"
    by (simp_all add: is_slot_empty_def last_filled_def trailing_free_def ex_gap_val)
  note T = downsize_keeps_filled[OF ex_reachable(3) a(1), unfolded Let_def]
  from T have q: "\<forall>pos. last_filled ex_gap pos \<and> pos \<noteq> size_slab ex_gap - 1 \<and>
            4 \<le> empty_count ex_gap - trailing_free ex_gap \<longrightarrow>
        size_slab (snd (resize ex_gap 1)) = max (max 1 1) (pos + 1)" by blast
  have c: "4 \<le> empty_count ex_gap - trailing_free ex_gap" by (simp add: ex_counts b)
  from q[rule_format, of 4] a b c have d: "size_slab (snd (resize ex_gap 1)) = 5" by simp
  from T have p: "\<forall>j<size_slab ex_gap. is_slot_empty ex_gap j = Inr False \<longrightarrow>
          j < size_slab (snd (resize ex_gap 1)) \<and>
          is_slot_empty (snd (resize ex_gap 1)) j = Inr False \<and>
          elem_vec (snd (resize ex_gap 1)) ! j = elem_vec ex_gap ! j" by blast
  from p[rule_format, of 4] a b
  have e: "is_slot_empty (snd (resize ex_gap 1)) 4 = Inr False"
    "elem_vec (snd (resize ex_gap 1)) ! 4 = elem_vec ex_gap ! 4" by simp_all
  from T have f: "fst (resize ex_gap 1) = Inr ()"
    "used_list (snd (resize ex_gap 1)) = used_list ex_gap" by blast+
  from a b c d e f ex_reachable(3) show ?thesis by (simp add: ex_lists)
qed

text \<open>
  Claim C6, as stated: in a reachable state, \<^verbatim>\<open>resize(newsize)\<close> with \<open>newsize\<close> below
  \<^verbatim>\<open>size()\<close> changes nothing whenever fewer than 4 consecutive free slots end the vector.
  The code does something else. In \<open>ex_gap\<close> (slots 0 to 3 free, slot 4 filled, slot 5
  free) one free slot ends the vector and \<^verbatim>\<open>resize(1)\<close> cuts the vector from 6 to 5
  slots; in \<open>ex_free\<close> (three slots, all free) three free slots end the vector and
  \<^verbatim>\<open>resize(1)\<close> rebuilds a vector of one slot.
\<close>

theorem downsize_small_tail_counterexample:
  "reachable ex_gap \<and> (1::nat) < size_slab ex_gap \<and> trailing_free ex_gap < 4 \<and>
   snd (resize ex_gap 1) \<noteq> ex_gap \<and>
   size_slab ex_gap = 6 \<and> size_slab (snd (resize ex_gap 1)) = 5 \<and>
   reachable ex_free \<and> (1::nat) < size_slab ex_free \<and> trailing_free ex_free < 4 \<and>
   snd (resize ex_free 1) \<noteq> ex_free \<and>
   size_slab ex_free = 3 \<and> size_slab (snd (resize ex_free 1)) = 1"
proof -
  have a: "size_slab ex_gap = 6" "trailing_free ex_gap < 4"
    "size_slab ex_free = 3" "trailing_free ex_free < 4"
    by (simp_all add: ex_gap_val ex_free_val size_slab_def trailing_free_def)
  have a': "size_slab (snd (resize ex_gap 1)) = 5" "size_slab (snd (resize ex_free 1)) = 1"
    unfolding ex_gap_resize ex_free_resize by (simp_all add: size_slab_def)
  from a(1) a'(1) have b: "snd (resize ex_gap 1) \<noteq> ex_gap" by auto
  from a(3) a'(2) have c: "snd (resize ex_free 1) \<noteq> ex_free" by auto
  from a a' b c ex_reachable(3) ex_free_reachable show ?thesis by simp
qed

text \<open>
  Claim C6, amended: in a reachable state with at least one filled slot, \<open>pos\<close> being
  the highest filled index, \<^verbatim>\<open>resize(newsize)\<close> with \<open>newsize\<close> below \<^verbatim>\<open>size()\<close> changes
  nothing whenever \<open>pos\<close> is the last index (no free slot ends the vector) or fewer
  than 4 free slots lie outside the trailing free region
  (\<open>empty_cnt - cnt < 4\<close>, \<open>cnt\<close> the number of trailing free slots).
\<close>

theorem downsize_noop:
  assumes "reachable s" and "newsize < size_slab s" and "last_filled s pos"
    and "pos = size_slab s - 1 \<or> empty_count s - trailing_free s < 4"
  shows "resize s newsize = (Inr (), s)"
proof -
  note w = reachable_lists[OF assms(1)]
  from assms(2) have lt: "newsize < length (elem_vec s)" by (simp add: size_slab_def)
  from assms(4) have k: "pos = length (elem_vec s) - 1 \<or> empty_cnt s - trailing_free s < 4"
    by (simp add: size_slab_def empty_count_def)
  show ?thesis by (rule resize_down_keep[OF w lt assms(3) k])
qed

theorem downsize_noop_witness:
  "reachable ex_ten \<and> (1::nat) < size_slab ex_ten \<and> last_filled ex_ten 2 \<and>
   empty_count ex_ten - trailing_free ex_ten < 4 \<and> trailing_free ex_ten = 7 \<and>
   resize ex_ten 1 = (Inr (), ex_ten) \<and>
   reachable ex_full \<and> (1::nat) < size_slab ex_full \<and> last_filled ex_full 5 \<and>
   5 = size_slab ex_full - 1 \<and> resize ex_full 1 = (Inr (), ex_full)"
proof -
  have a: "(1::nat) < size_slab ex_ten" "last_filled ex_ten 2" "trailing_free ex_ten = 7"
    "(1::nat) < size_slab ex_full" "last_filled ex_full 5" "5 = size_slab ex_full - 1"
    by (simp_all add: ex_sizes)
       (simp_all add: last_filled_def trailing_free_def ex_ten_val ex_full_val)
  have b: "empty_count ex_ten - trailing_free ex_ten < 4" by (simp add: a ex_counts)
  from downsize_noop[OF ex_reachable(5) a(1,2) disjI2[OF b]]
    downsize_noop[OF ex_reachable(2) a(4,5) disjI1[OF a(6)]]
    a b ex_reachable(2,5)
  show ?thesis by simp
qed

text \<open>
  Claim C7. In a reachable state, for \<^verbatim>\<open>resize(newsize)\<close> with \<open>newsize\<close> below \<^verbatim>\<open>size()\<close>,
  let \<open>pos\<close> be the highest filled index and suppose it is not the last index. The
  backward scan of the code yields this \<open>pos\<close> and, as \<open>cnt\<close>, the number of trailing
  free slots, and the unsigned difference \<open>empty_cnt - cnt\<close> it tests does not wrap. If
  that difference is below 4 the call changes nothing; if it is at least 4 the call
  truncates the vector to the larger of \<open>newsize\<close> clamped to at least 1 and \<open>pos + 1\<close>,
  which is shorter than before. So the state changes only when the difference is at
  least 4.
\<close>

theorem downsize_threshold:
  assumes "reachable s" and "newsize < size_slab s" and "last_filled s pos"
    and "pos \<noteq> size_slab s - 1"
  shows "(let s' = snd (resize s newsize) in
     scan_back (elem_vec s) (size_slab s - 1) 0 = (pos, trailing_free s) \<and>
     size_sub (empty_cnt s) (trailing_free s) = empty_count s - trailing_free s \<and>
     (empty_count s - trailing_free s < 4 \<longrightarrow> resize s newsize = (Inr (), s)) \<and>
     (4 \<le> empty_count s - trailing_free s \<longrightarrow>
        fst (resize s newsize) = Inr () \<and>
        size_slab s' = max (max newsize 1) (pos + 1) \<and>
        size_slab s' < size_slab s) \<and>
     (s' \<noteq> s \<longrightarrow> 4 \<le> empty_count s - trailing_free s))"
proof -
  let ?s' = "snd (resize s newsize)"
  let ?ss = "length (elem_vec s)"
  note w = reachable_lists[OF assms(1)]
  note l = assms(3)
  from assms(2) have lt: "newsize < ?ss" by (simp add: size_slab_def)
  from assms(4) have k1: "pos \<noteq> ?ss - 1" by (simp add: size_slab_def)
  from l have p: "pos < ?ss" "\<not> is_empty (elem_vec s ! pos)"
    and t: "\<And>j. pos < j \<Longrightarrow> j < ?ss \<Longrightarrow> is_empty (elem_vec s ! j)"
    by (simp_all add: last_filled_iff)
  have "scan_back (elem_vec s) (?ss - 1) 0 = (pos, 0 + (?ss - 1 - pos))"
    by (rule scan_back_found) (use p t in simp_all)
  then have a: "scan_back (elem_vec s) (size_slab s - 1) 0 = (pos, trailing_free s)"
    by (simp add: last_filled_trailing[OF l] size_slab_def)
  have b: "size_sub (empty_cnt s) (trailing_free s) = empty_count s - trailing_free s"
    using threshold_eq[OF w l] by (simp add: last_filled_trailing[OF l] empty_count_def)
  have c: "empty_count s - trailing_free s < 4 \<longrightarrow> resize s newsize = (Inr (), s)"
  proof
    assume "empty_count s - trailing_free s < 4"
    then have "pos = ?ss - 1 \<or> empty_cnt s - trailing_free s < 4"
      by (simp add: empty_count_def)
    from resize_down_keep[OF w lt l this] show "resize s newsize = (Inr (), s)" .
  qed
  have d: "4 \<le> empty_count s - trailing_free s \<longrightarrow>
        fst (resize s newsize) = Inr () \<and>
        size_slab ?s' = max (max newsize 1) (pos + 1) \<and>
        size_slab ?s' < size_slab s"
  proof
    assume "4 \<le> empty_count s - trailing_free s"
    then have k2: "4 \<le> empty_cnt s - trailing_free s" by (simp add: empty_count_def)
    note R = resize_down_trim[OF w lt l k1 k2 refl]
    from R(1,3,5) show "fst (resize s newsize) = Inr () \<and>
        size_slab ?s' = max (max newsize 1) (pos + 1) \<and>
        size_slab ?s' < size_slab s"
      by (simp add: size_slab_def)
  qed
  have e: "?s' \<noteq> s \<longrightarrow> 4 \<le> empty_count s - trailing_free s"
  proof
    assume n: "?s' \<noteq> s"
    show "4 \<le> empty_count s - trailing_free s"
    proof (rule ccontr)
      assume "\<not> 4 \<le> empty_count s - trailing_free s"
      with c have "resize s newsize = (Inr (), s)" by simp
      with n show False by simp
    qed
  qed
  from a b c d e show ?thesis unfolding Let_def by blast
qed

theorem downsize_threshold_witness:
  "reachable ex_gap \<and> (1::nat) < size_slab ex_gap \<and> last_filled ex_gap 4 \<and>
   (4::nat) \<noteq> size_slab ex_gap - 1 \<and>
   4 \<le> empty_count ex_gap - trailing_free ex_gap \<and>
   fst (resize ex_gap 1) = Inr () \<and> size_slab (snd (resize ex_gap 1)) = 5 \<and>
   reachable ex_ten \<and> (1::nat) < size_slab ex_ten \<and> last_filled ex_ten 2 \<and>
   (2::nat) \<noteq> size_slab ex_ten - 1 \<and>
   empty_count ex_ten - trailing_free ex_ten < 4 \<and>
   resize ex_ten 1 = (Inr (), ex_ten)"
proof -
  have a: "(1::nat) < size_slab ex_gap" "last_filled ex_gap 4" "(4::nat) \<noteq> size_slab ex_gap - 1"
    "(1::nat) < size_slab ex_ten" "last_filled ex_ten 2" "(2::nat) \<noteq> size_slab ex_ten - 1"
    by (simp_all add: ex_sizes) (simp_all add: last_filled_def ex_gap_val ex_ten_val)
  have t: "trailing_free ex_gap = 1" "trailing_free ex_ten = 7"
    by (simp_all add: trailing_free_def ex_gap_val ex_ten_val)
  have b: "4 \<le> empty_count ex_gap - trailing_free ex_gap"
    "empty_count ex_ten - trailing_free ex_ten < 4"
    by (simp_all add: t ex_counts)
  note G = downsize_threshold[OF ex_reachable(3) a(1,2,3), unfolded Let_def]
  note T = downsize_threshold[OF ex_reachable(5) a(4,5,6), unfolded Let_def]
  from G b(1) have g: "fst (resize ex_gap 1) = Inr ()"
    "size_slab (snd (resize ex_gap 1)) = max (max 1 1) (4 + 1)" by blast+
  from T b(2) have h: "resize ex_ten 1 = (Inr (), ex_ten)" by blast
  from a b g h ex_reachable(3,5) show ?thesis by simp
qed

text \<open>
  Claim C8, as stated: for every \<open>k > 0\<close>, \<^verbatim>\<open>resize(size() + k)\<close> increases \<^verbatim>\<open>size()\<close> by
  exactly \<open>k\<close>. The code does not do so for every \<open>k\<close> a caller can pass. In \<open>ex_three\<close>
  (three slots, all filled) and with \<open>k = vec_max_size\<close>, the requested length exceeds
  what the vector can hold: \<^verbatim>\<open>elem_vec.resize\<close> throws \<^verbatim>\<open>std::length_error\<close> before anything
  is assigned and \<^verbatim>\<open>size()\<close> stays 3. With \<open>k = 2 ^ 64 - 1\<close> the sum \<^verbatim>\<open>size() + k\<close> wraps
  in \<^verbatim>\<open>size_t\<close> to 2, the call is a downsize request, and \<^verbatim>\<open>size()\<close> stays 3 as well.
\<close>

theorem upsize_any_k_counterexample:
  "reachable ex_three \<and> size_slab ex_three = 3 \<and>
   vec_max_size = 384307168202282325 \<and> 0 < vec_max_size \<and>
   resize ex_three (size_slab ex_three + vec_max_size) = (Inl LengthError, ex_three) \<and>
   size_slab (snd (resize ex_three (size_slab ex_three + vec_max_size)))
     \<noteq> size_slab ex_three + vec_max_size \<and>
   0 < NULL_INDEX \<and> size_add (size_slab ex_three) NULL_INDEX = 2 \<and>
   resize ex_three (size_add (size_slab ex_three) NULL_INDEX) = (Inr (), ex_three) \<and>
   size_slab (snd (resize ex_three (size_add (size_slab ex_three) NULL_INDEX)))
     \<noteq> size_slab ex_three + NULL_INDEX"
proof -
  have l: "length (elem_vec ex_three) = 3" using ex_sizes(4) by (simp add: size_slab_def)
  have v: "vec_max_size = 384307168202282325" by (simp add: vec_max_size_def)
  then have p: "0 < vec_max_size" by simp
  have a: "resize ex_three (size_slab ex_three + vec_max_size) = (Inl LengthError, ex_three)"
    by (rule resize_too_big) (use p in \<open>simp_all add: size_slab_def l\<close>)
  have b: "size_slab (snd (resize ex_three (size_slab ex_three + vec_max_size)))
     \<noteq> size_slab ex_three + vec_max_size"
    unfolding a using p by (simp add: ex_sizes)
  have n: "0 < NULL_INDEX" by (simp add: NULL_INDEX_def size_t_mod_def)
  have w: "size_add (size_slab ex_three) NULL_INDEX = 2"
    by (simp add: ex_sizes size_add_def NULL_INDEX_def size_t_mod_def)
  have lf: "last_filled ex_three 2"
    by (simp add: last_filled_def ex_three_val)
  have c: "resize ex_three 2 = (Inr (), ex_three)"
    by (rule resize_down_keep[OF reachable_lists[OF ex_reachable(4)] _ lf])
       (simp_all add: l)
  have d: "size_slab (snd (resize ex_three (size_add (size_slab ex_three) NULL_INDEX)))
     \<noteq> size_slab ex_three + NULL_INDEX"
    unfolding w c using n by (simp add: ex_sizes)
  from a b c d v p n w ex_reachable(4) ex_sizes(4) show ?thesis by simp
qed

text \<open>
  Claim C8, amended. In a reachable state, for every \<open>k > 0\<close> such that \<^verbatim>\<open>size() + k\<close> does
  not exceed the \<^verbatim>\<open>max_size()\<close> of the vector (so that the sum does not wrap in
  \<^verbatim>\<open>size_t\<close> and the vector can hold that many slots), \<^verbatim>\<open>resize(size() + k)\<close> returns
  normally, increases \<^verbatim>\<open>size()\<close> and \<^verbatim>\<open>empty_count()\<close> by exactly \<open>k\<close> and keeps
  \<^verbatim>\<open>filled_count()\<close>. Every slot that was filled keeps its flag and its links, every
  slot that was free stays free, and the filled list is the same. The new slots are in
  front of the old empty list, the highest index first, so the next \<open>k\<close> calls of
  \<^verbatim>\<open>acquire()\<close> return the new indices from the highest down to the old \<^verbatim>\<open>size()\<close>.
\<close>

theorem upsize_spec:
  assumes "reachable s" and "0 < k" and "size_slab s + k \<le> vec_max_size"
  shows "(let s' = snd (resize s (size_slab s + k)) in
     fst (resize s (size_slab s + k)) = Inr () \<and>
     size_slab s' = size_slab s + k \<and>
     empty_count s' = empty_count s + k \<and>
     filled_count s' = filled_count s \<and>
     (\<forall>j<size_slab s. is_slot_empty s j = Inr False \<longrightarrow>
          is_slot_empty s' j = Inr False \<and> elem_vec s' ! j = elem_vec s ! j) \<and>
     (\<forall>j<size_slab s. is_slot_empty s j = Inr True \<longrightarrow> is_slot_empty s' j = Inr True) \<and>
     used_list s' = used_list s \<and>
     free_list s' = rev [size_slab s..<size_slab s + k] @ free_list s \<and>
     fst (acquire_n k s') = map Inr (rev [size_slab s..<size_slab s + k]))"
proof -
  let ?ss = "length (elem_vec s)"
  let ?n = "?ss + k"
  let ?s' = "snd (resize s ?n)"
  let ?fl = "free_list s"
  let ?ul = "used_list s"
  let ?new = "rev [?ss..<?n]"
  note w = reachable_lists[OF assms(1)]
  from assms(2) have gt: "?ss < ?n" by simp
  from assms(3) have le: "?n \<le> vec_max_size" by (simp add: size_slab_def)
  note R = resize_up[OF w gt le]
  from w have c: "empty_cnt s = length ?fl" "filled_cnt s = length ?ul"
    by (simp_all add: wf_lists_def)
  from R(2) have c': "empty_cnt ?s' = length (?new @ ?fl)" "filled_cnt ?s' = length ?ul"
    by (simp_all add: wf_lists_def)
  from wf_lists_lengths[OF R(2)] wf_lists_lengths[OF w]
  have len: "length (elem_vec ?s') = ?n" by simp
  have a: "\<forall>j<?ss. is_slot_empty s j = Inr False \<longrightarrow>
          is_slot_empty ?s' j = Inr False \<and> elem_vec ?s' ! j = elem_vec s ! j"
  proof (intro allI impI)
    fix j assume j: "j < ?ss" and "is_slot_empty s j = Inr False"
    then have e: "\<not> is_empty (elem_vec s ! j)" by (simp add: is_slot_empty_def)
    from R(3)[OF j e] e j len
    show "is_slot_empty ?s' j = Inr False \<and> elem_vec ?s' ! j = elem_vec s ! j"
      by (simp add: is_slot_empty_def)
  qed
  have b: "\<forall>j<?ss. is_slot_empty s j = Inr True \<longrightarrow> is_slot_empty ?s' j = Inr True"
  proof (intro allI impI)
    fix j assume j: "j < ?ss" and "is_slot_empty s j = Inr True"
    then have "is_empty (elem_vec s ! j)" by (simp add: is_slot_empty_def)
    with j have "j \<in> set ?fl" using wf_lists_mem(1)[OF w, of j] by simp
    then have "j \<in> set (?new @ ?fl)" by simp
    with wf_lists_mem(1)[OF R(2), of j]
    show "is_slot_empty ?s' j = Inr True" by (simp add: is_slot_empty_def)
  qed
  have d: "fst (acquire_n k ?s') = map Inr ?new"
    using acquire_n_take[OF R(2), of k] by simp
  show ?thesis
    unfolding Let_def size_slab_def empty_count_def filled_count_def
    using R(1) len c c' a b d wf_lists_free_list[OF R(2)] wf_lists_used_list[OF R(2)]
    by simp
qed

theorem upsize_spec_witness:
  "reachable ex_three \<and> (0::nat) < 7 \<and> size_slab ex_three + 7 \<le> vec_max_size \<and>
   fst (resize ex_three 10) = Inr () \<and>
   size_slab (snd (resize ex_three 10)) = 10 \<and>
   empty_count (snd (resize ex_three 10)) = 7 \<and>
   filled_count (snd (resize ex_three 10)) = 3 \<and>
   used_list (snd (resize ex_three 10)) = [2, 1, 0] \<and>
   free_list (snd (resize ex_three 10)) = [9, 8, 7, 6, 5, 4, 3] \<and>
   fst (acquire_n 7 (snd (resize ex_three 10))) =
     [Inr 9, Inr 8, Inr 7, Inr 6, Inr 5, Inr 4, Inr 3]"
proof -
  have a: "(0::nat) < 7" "size_slab ex_three + 7 \<le> vec_max_size"
    by (simp_all add: ex_sizes small_max_size)
  have u: "rev [3..<10] = [9, 8, 7, 6, 5, 4, 3::nat]"
    by (simp add: upt_rec)
  from upsize_spec[OF ex_reachable(4) a] a ex_reachable(4)
  show ?thesis by (simp add: Let_def ex_sizes ex_counts ex_lists u)
qed

text \<open>
  Claim C9. \<^verbatim>\<open>is_slot_empty(ind)\<close> throws \<^verbatim>\<open>std::out_of_range\<close> exactly when \<open>ind\<close> is
  not below \<^verbatim>\<open>size()\<close>, and returns the \<open>is_empty\<close> flag of the slot otherwise. The
  member function is \<^verbatim>\<open>const\<close>: its embedding takes the state and yields an outcome
  only, so no call changes the state, whether it fails or not.
\<close>

theorem is_slot_empty_spec:
  "(is_slot_empty s ind = Inl OutOfRange \<longleftrightarrow> ind \<ge> size_slab s) \<and>
   ((\<exists>e. is_slot_empty s ind = Inl e) \<longleftrightarrow> ind \<ge> size_slab s) \<and>
   (ind < size_slab s \<longrightarrow> is_slot_empty s ind = Inr (is_empty (elem_vec s ! ind)))"
  by (auto simp add: is_slot_empty_def size_slab_def)

theorem is_slot_empty_spec_witness:
  "4 < size_slab ex_gap \<and> is_slot_empty ex_gap 4 = Inr False \<and>
   is_slot_empty ex_gap 3 = Inr True \<and>
   size_slab ex_gap \<le> 6 \<and> is_slot_empty ex_gap 6 = Inl OutOfRange"
  using is_slot_empty_spec[of ex_gap 4] is_slot_empty_spec[of ex_gap 3]
    is_slot_empty_spec[of ex_gap 6]
  by (simp add: ex_gap_val size_slab_def)

text \<open>
  Claim C10. In a reachable state with at least one filled slot, suppose
  \<^verbatim>\<open>resize(newsize)\<close> with \<open>newsize\<close> below \<^verbatim>\<open>size()\<close> makes the vector shorter. Afterwards
  the empty list holds the free slots of the new vector in ascending index order; it
  is the old empty list restricted to the surviving indices and sorted, whatever the
  release order was. It is not empty, its head is the lowest free index, and the next
  \<^verbatim>\<open>acquire()\<close> returns that index. The release order is not kept: there is a reachable
  state in which the new empty list differs from the old one restricted to the
  surviving indices.
\<close>

theorem downsize_relinks_ascending:
  assumes "reachable s" and "newsize < size_slab s" and "some_filled s"
    and "size_slab (snd (resize s newsize)) < size_slab s"
  shows "(let s' = snd (resize s newsize) in
     free_list s' = filter (\<lambda>j. is_empty (elem_vec s' ! j)) [0..<size_slab s'] \<and>
     free_list s' = sort (filter (\<lambda>j. j < size_slab s') (free_list s)) \<and>
     free_list s' \<noteq> [] \<and>
     empty_head s' = hd (free_list s') \<and>
     is_slot_empty s' (hd (free_list s')) = Inr True \<and>
     (\<forall>j<size_slab s'. is_slot_empty s' j = Inr True \<longrightarrow> hd (free_list s') \<le> j) \<and>
     fst (acquire s') = Inr (hd (free_list s'))) \<and>
   (\<exists>t n. reachable t \<and> n < size_slab t \<and> some_filled t \<and>
      size_slab (snd (resize t n)) < size_slab t \<and>
      free_list (snd (resize t n)) \<noteq>
        filter (\<lambda>j. j < size_slab (snd (resize t n))) (free_list t))"
proof
  let ?s' = "snd (resize s newsize)"
  let ?ev = "elem_vec s"
  let ?ev' = "elem_vec ?s'"
  let ?ss = "length ?ev"
  let ?fl = "free_list s"
  let ?ul = "used_list s"
  note w = reachable_lists[OF assms(1)]
  from assms(2) have lt: "newsize < ?ss" by (simp add: size_slab_def)
  from last_filled_ex[OF assms(3)] obtain pos where l: "last_filled s pos" by blast
  have nk: "\<not> (pos = ?ss - 1 \<or> empty_cnt s - trailing_free s < 4)"
  proof
    assume "pos = ?ss - 1 \<or> empty_cnt s - trailing_free s < 4"
    from resize_down_keep[OF w lt l this] assms(4) show False by simp
  qed
  then have k: "pos \<noteq> ?ss - 1" "4 \<le> empty_cnt s - trailing_free s" by simp_all
  define m where "m = max (max newsize 1) (pos + 1)"
  define fl' where "fl' = filter (\<lambda>j. is_empty (?ev ! j)) [0..<m]"
  note R = resize_down_trim[OF w lt l k m_def, folded fl'_def]
  note M = wf_lists_mem(1)[OF w]
  note M' = wf_lists_mem(1)[OF R(2)]
  have len: "size_slab ?s' = m" using R(3) by (simp add: size_slab_def)
  have f: "free_list ?s' = fl'" by (rule wf_lists_free_list[OF R(2)])
  have mem': "\<And>j. j \<in> set fl' \<longleftrightarrow> j < m \<and> is_empty (?ev ! j)"
    unfolding fl'_def by simp
  have agree: "\<And>j. j < m \<Longrightarrow> is_empty (?ev' ! j) = is_empty (?ev ! j)"
  proof -
    fix j assume j: "j < m"
    from M'[of j] have "j \<in> set fl' \<longleftrightarrow> j < m \<and> is_empty (?ev' ! j)"
      unfolding R(3) .
    with mem'[of j] j show "is_empty (?ev' ! j) = is_empty (?ev ! j)" by simp
  qed
  have c1: "fl' = filter (\<lambda>j. is_empty (?ev' ! j)) [0..<m]"
    unfolding fl'_def by (rule filter_cong) (simp_all add: agree)
  have srt: "sorted fl'" unfolding fl'_def by (rule sorted_filter_upt)
  have dst: "distinct fl'" unfolding fl'_def by simp
  have c2: "fl' = sort (filter (\<lambda>j. j < m) ?fl)"
  proof (rule sorted_distinct_set_unique[OF srt dst])
    show "sorted (sort (filter (\<lambda>j. j < m) ?fl))" by simp
    from w have "distinct ?fl" by (simp add: wf_lists_def)
    then show "distinct (sort (filter (\<lambda>j. j < m) ?fl))" by simp
    show "set fl' = set (sort (filter (\<lambda>j. j < m) ?fl))"
    proof (rule set_eqI)
      fix j
      have "j \<in> set (sort (filter (\<lambda>j. j < m) ?fl)) \<longleftrightarrow> j \<in> set ?fl \<and> j < m"
        by simp
      also have "\<dots> \<longleftrightarrow> (j < ?ss \<and> is_empty (?ev ! j)) \<and> j < m"
        unfolding M[of j] ..
      also have "\<dots> \<longleftrightarrow> j < m \<and> is_empty (?ev ! j)"
        using R(5) by (cases "j < m") simp_all
      finally show "j \<in> set fl' \<longleftrightarrow> j \<in> set (sort (filter (\<lambda>j. j < m) ?fl))"
        unfolding mem'[of j] by simp
    qed
  qed
  from free_below_last_filled[OF w l k(2)] obtain j0
    where j0: "j0 < pos" "is_empty (?ev ! j0)" by blast
  moreover have "pos < m" unfolding m_def by simp
  ultimately have "j0 \<in> set fl'" unfolding mem'[of j0] by simp
  then have c3: "fl' \<noteq> []" by auto
  then obtain x r where xr: "fl' = x # r" by (cases fl') auto
  have c4: "empty_head ?s' = hd fl'"
    using wf_lists_heads(3)[OF R(2)] c3 by simp
  have "hd fl' \<in> set fl'" using c3 by simp
  then have "hd fl' < length ?ev' \<and> is_empty (?ev' ! hd fl')" unfolding M'[of "hd fl'"] .
  then have c5: "is_slot_empty ?s' (hd fl') = Inr True"
    by (simp add: is_slot_empty_def)
  have c6: "\<forall>j<m. is_slot_empty ?s' j = Inr True \<longrightarrow> hd fl' \<le> j"
  proof (intro allI impI)
    fix j assume "j < m" "is_slot_empty ?s' j = Inr True"
    then have "j < m \<and> is_empty (?ev' ! j)"
      unfolding is_slot_empty_def R(3) by (simp split: if_splits)
    then have "j \<in> set fl'" unfolding M'[of j] R(3) .
    then have "j = x \<or> j \<in> set r" unfolding xr by simp
    moreover from srt have "\<forall>y\<in>set r. x \<le> y" unfolding xr by simp
    ultimately show "hd fl' \<le> j" unfolding xr by auto
  qed
  from R(2) have "wf_lists ?s' (x # r) ?ul" unfolding xr .
  from acquire_nonempty_fields(1)[OF this] have c7: "fst (acquire ?s') = Inr (hd fl')"
    by (simp add: xr)
  have "free_list ?s' = filter (\<lambda>j. is_empty (?ev' ! j)) [0..<size_slab ?s'] \<and>
     free_list ?s' = sort (filter (\<lambda>j. j < size_slab ?s') ?fl) \<and>
     free_list ?s' \<noteq> [] \<and>
     empty_head ?s' = hd (free_list ?s') \<and>
     is_slot_empty ?s' (hd (free_list ?s')) = Inr True \<and>
     (\<forall>j<size_slab ?s'. is_slot_empty ?s' j = Inr True \<longrightarrow> hd (free_list ?s') \<le> j) \<and>
     fst (acquire ?s') = Inr (hd (free_list ?s'))"
    unfolding len f
  proof (intro conjI)
    show "fl' = filter (\<lambda>j. is_empty (?ev' ! j)) [0..<m]" by (rule c1)
    show "fl' = sort (filter (\<lambda>j. j < m) ?fl)" by (rule c2)
    show "fl' \<noteq> []" by (rule c3)
    show "empty_head ?s' = hd fl'" by (rule c4)
    show "is_slot_empty ?s' (hd fl') = Inr True" by (rule c5)
    show "\<forall>j<m. is_slot_empty ?s' j = Inr True \<longrightarrow> hd fl' \<le> j" by (rule c6)
    show "fst (acquire ?s') = Inr (hd fl')" by (rule c7)
  qed
  then show "let s' = snd (resize s newsize) in
     free_list s' = filter (\<lambda>j. is_empty (elem_vec s' ! j)) [0..<size_slab s'] \<and>
     free_list s' = sort (filter (\<lambda>j. j < size_slab s') (free_list s)) \<and>
     free_list s' \<noteq> [] \<and>
     empty_head s' = hd (free_list s') \<and>
     is_slot_empty s' (hd (free_list s')) = Inr True \<and>
     (\<forall>j<size_slab s'. is_slot_empty s' j = Inr True \<longrightarrow> hd (free_list s') \<le> j) \<and>
     fst (acquire s') = Inr (hd (free_list s'))"
    unfolding Let_def .
next
  have a: "size_slab ex_gap = 6" "some_filled ex_gap" "free_list ex_gap = [5, 3, 2, 1, 0]"
    by (simp_all add: ex_sizes ex_lists) (simp add: some_filled_def ex_gap_val)
  have b: "size_slab (snd (resize ex_gap 1)) = 5"
    "free_list (snd (resize ex_gap 1)) = [0, 1, 2, 3]"
    unfolding ex_gap_resize by (simp_all add: size_slab_def free_list_def small_NULL)
  have "reachable ex_gap \<and> 1 < size_slab ex_gap \<and> some_filled ex_gap \<and>
      size_slab (snd (resize ex_gap 1)) < size_slab ex_gap \<and>
      free_list (snd (resize ex_gap 1)) \<noteq>
        filter (\<lambda>j. j < size_slab (snd (resize ex_gap 1))) (free_list ex_gap)"
    unfolding b a(1,3) using ex_reachable(3) a(2) by simp
  then show "\<exists>t n. reachable t \<and> n < size_slab t \<and> some_filled t \<and>
      size_slab (snd (resize t n)) < size_slab t \<and>
      free_list (snd (resize t n)) \<noteq>
        filter (\<lambda>j. j < size_slab (snd (resize t n))) (free_list t)"
    by blast
qed

theorem downsize_relinks_ascending_witness:
  "reachable ex_gap \<and> (1::nat) < size_slab ex_gap \<and> some_filled ex_gap \<and>
   size_slab (snd (resize ex_gap 1)) < size_slab ex_gap \<and>
   free_list ex_gap = [5, 3, 2, 1, 0] \<and>
   free_list (snd (resize ex_gap 1)) = [0, 1, 2, 3] \<and>
   empty_head (snd (resize ex_gap 1)) = 0 \<and>
   fst (acquire (snd (resize ex_gap 1))) = Inr 0"
proof -
  have a: "(1::nat) < size_slab ex_gap" "some_filled ex_gap"
    by (simp_all add: ex_sizes) (simp add: some_filled_def ex_gap_val)
  have b: "size_slab (snd (resize ex_gap 1)) = 5"
    unfolding ex_gap_resize by (simp add: size_slab_def)
  then have c: "size_slab (snd (resize ex_gap 1)) < size_slab ex_gap" by (simp add: ex_sizes)
  have s: "sort [3, 2, 1, 0::nat] = [0, 1, 2, 3]" by simp
  note T = conjunct1[OF downsize_relinks_ascending[OF ex_reachable(3) a c], unfolded Let_def]
  from T have d: "free_list (snd (resize ex_gap 1)) =
      sort (filter (\<lambda>j. j < size_slab (snd (resize ex_gap 1))) (free_list ex_gap))"
    and e: "empty_head (snd (resize ex_gap 1)) = hd (free_list (snd (resize ex_gap 1)))"
    and f: "fst (acquire (snd (resize ex_gap 1))) = Inr (hd (free_list (snd (resize ex_gap 1))))"
    by blast+
  from d have g: "free_list (snd (resize ex_gap 1)) = [0, 1, 2, 3]"
    unfolding b by (simp add: ex_lists)
  from e f a c ex_reachable(3) show ?thesis unfolding g by (simp add: ex_lists)
qed

end
